theory Spec2Isabelle
  imports Main "HOL-Library.Sublist" "HOL-Library.AList"
begin

section \<open>Python strings\<close>

text \<open>
  A Python \<open>str\<close> is modelled as a \<open>string\<close>, each \<open>char\<close> read as one code point in
  the range U+0000..U+00FF. The character classes below are those of CPython on that
  range: \<open>str.isspace\<close> (used by \<open>str.strip\<close> and by the pattern \<open>\s\<close>), the decimal
  digits of \<open>\d\<close>, the word characters of \<open>\w\<close> (which decide \<open>\b\<close>), the line
  boundaries of \<open>str.splitlines\<close> and the letters changed by \<open>str.lower\<close>.
\<close>

abbreviation NL :: char where "NL \<equiv> CHR 0x0A"
abbreviation CR :: char where "CR \<equiv> CHR 0x0D"
abbreviation SP :: char where "SP \<equiv> CHR 0x20"

definition code :: "char \<Rightarrow> nat" where
  "code c = of_char c"

definition is_space :: "char \<Rightarrow> bool" where
  "is_space c = (let n = code c in
     (9 \<le> n \<and> n \<le> 13) \<or> (28 \<le> n \<and> n \<le> 32) \<or> n = 133 \<or> n = 160)"

definition is_digit :: "char \<Rightarrow> bool" where
  "is_digit c = (let n = code c in 48 \<le> n \<and> n \<le> 57)"

definition is_word :: "char \<Rightarrow> bool" where
  "is_word c = (let n = code c in
     (48 \<le> n \<and> n \<le> 57) \<or> (65 \<le> n \<and> n \<le> 90) \<or> n = 95 \<or> (97 \<le> n \<and> n \<le> 122) \<or>
     n = 170 \<or> n = 178 \<or> n = 179 \<or> n = 181 \<or> n = 185 \<or> n = 186 \<or>
     (188 \<le> n \<and> n \<le> 190) \<or> (192 \<le> n \<and> n \<le> 214) \<or> (216 \<le> n \<and> n \<le> 246) \<or>
     (248 \<le> n \<and> n \<le> 255))"

definition is_linebreak :: "char \<Rightarrow> bool" where
  "is_linebreak c = (let n = code c in
     (10 \<le> n \<and> n \<le> 13) \<or> (28 \<le> n \<and> n \<le> 30) \<or> n = 133)"

definition lower_char :: "char \<Rightarrow> char" where
  "lower_char c = (let n = code c in
     if (65 \<le> n \<and> n \<le> 90) \<or> (192 \<le> n \<and> n \<le> 214) \<or> (216 \<le> n \<and> n \<le> 222)
     then char_of (n + 32) else c)"

text \<open>\<open>s.lower()\<close>\<close>

definition lower :: "string \<Rightarrow> string" where
  "lower s = map lower_char s"

text \<open>\<open>s.strip()\<close>\<close>

definition strip :: "string \<Rightarrow> string" where
  "strip s = rev (dropWhile is_space (rev (dropWhile is_space s)))"

text \<open>\<open>s.replace("\n", " ")\<close>\<close>

definition replace_newlines :: "string \<Rightarrow> string" where
  "replace_newlines s = map (\<lambda>c. if c = NL then SP else c) s"

text \<open>\<open>sub in s\<close> on strings\<close>

fun contains :: "string \<Rightarrow> string \<Rightarrow> bool" where
  "contains sub [] = (sub = [])"
| "contains sub (c # cs) = (prefix sub (c # cs) \<or> contains sub cs)"

text \<open>
  \<open>s.splitlines()\<close>: the text is cut at every line boundary, \<open>\r\n\<close> counting as one,
  and no empty last line is produced when the text ends with a boundary.
\<close>

fun splitlines_acc :: "string \<Rightarrow> string \<Rightarrow> string list" where
  "splitlines_acc cur [] = (if cur = [] then [] else [cur])"
| "splitlines_acc cur [c] = (if is_linebreak c then [cur] else [cur @ [c]])"
| "splitlines_acc cur (c # d # cs) =
     (if c = CR \<and> d = NL then cur # splitlines_acc [] cs
      else if is_linebreak c then cur # splitlines_acc [] (d # cs)
      else splitlines_acc (cur @ [c]) (d # cs))"

definition splitlines :: "string \<Rightarrow> string list" where
  "splitlines s = splitlines_acc [] s"

text \<open>\<open>s.split(sep)\<close> for a separator of one character\<close>

fun py_split :: "char \<Rightarrow> string \<Rightarrow> string list" where
  "py_split sep [] = [[]]"
| "py_split sep (c # cs) =
     (if c = sep then [] # py_split sep cs
      else (case py_split sep cs of [] \<Rightarrow> [[c]] | p # ps \<Rightarrow> (c # p) # ps))"

text \<open>
  \<open>s.replace(old, new)\<close> for a non-empty \<open>old\<close>, scanning from the left; the counter
  is the number of characters of a replaced occurrence that are still to be skipped.
\<close>

fun replace_skip :: "string \<Rightarrow> string \<Rightarrow> nat \<Rightarrow> string \<Rightarrow> string" where
  "replace_skip old new k [] = []"
| "replace_skip old new (Suc k) (c # cs) = replace_skip old new k cs"
| "replace_skip old new 0 (c # cs) =
     (if prefix old (c # cs) then new @ replace_skip old new (length old - 1) cs
      else c # replace_skip old new 0 cs)"

definition py_replace :: "string \<Rightarrow> string \<Rightarrow> string \<Rightarrow> string" where
  "py_replace old new s = replace_skip old new 0 s"

text \<open>\<open>s.endswith(suffix)\<close>\<close>

definition endswith :: "string \<Rightarrow> string \<Rightarrow> bool" where
  "endswith s suf = suffix suf s"

text \<open>
  Reading a file opened in text mode translates \<open>\r\n\<close> and a lone \<open>\r\<close> to \<open>\n\<close>
  (universal newlines).
\<close>

fun universal_newlines :: "string \<Rightarrow> string" where
  "universal_newlines [] = []"
| "universal_newlines [c] = (if c = CR then [NL] else [c])"
| "universal_newlines (c # d # cs) =
     (if c = CR \<and> d = NL then NL # universal_newlines cs
      else if c = CR then NL # universal_newlines (d # cs)
      else c # universal_newlines (d # cs))"

section \<open>Section split\<close>

text \<open>
  \<open>re.split(r"(?=\b\d+\.\s)", text)\<close>. The pattern is a lookahead, so every match is
  empty; \<open>re.split\<close> cuts the text at every position where it matches. It matches
  before a run of digits followed by a period and a whitespace character, when the
  position is a word boundary: the start of the text, or after a non-word character.
\<close>

definition heading :: "string \<Rightarrow> bool" where
  "heading s = (takeWhile is_digit s \<noteq> [] \<and>
     (case dropWhile is_digit s of
        d # w # _ \<Rightarrow> d = CHR ''.'' \<and> is_space w
      | _ \<Rightarrow> False))"

text \<open>
  The flag says whether the previous character is a word character (\<open>False\<close> at the
  start of the text); \<open>cur\<close> is the section being collected.
\<close>

fun split_sections_acc :: "bool \<Rightarrow> string \<Rightarrow> string \<Rightarrow> string list" where
  "split_sections_acc pw cur [] = [cur]"
| "split_sections_acc pw cur (c # cs) =
     (if \<not> pw \<and> heading (c # cs) then cur # split_sections_acc (is_word c) [c] cs
      else split_sections_acc (is_word c) (cur @ [c]) cs)"

definition split_sections :: "string \<Rightarrow> string list" where
  "split_sections text = split_sections_acc False [] text"

section \<open>Errors, sets and dictionaries\<close>

text \<open>
  An exception is a value of type \<open>error\<close>; a function that can raise returns
  \<open>error + 'a\<close>. \<open>ExternalError\<close> stands for any exception raised by the external
  candidate-term generator.
\<close>

datatype error = KeyError string | IndexError | FileNotFoundError string | ExternalError string

text \<open>
  A Python \<open>dict\<close> is an association list with distinct keys in insertion order:
  \<open>d[k] = v\<close> is \<open>AList.update k v d\<close> (an existing key keeps its place, a new one
  goes last) and \<open>d[k]\<close> is \<open>map_of d k\<close>, raising \<open>KeyError\<close> on \<open>None\<close>.

  A Python \<open>set\<close> of strings that the code builds is the duplicate-free list of its
  elements, and \<open>s.add(x)\<close> is \<open>set_add x s\<close>. The position of an element in that list
  means nothing: Python leaves the iteration order of a set unspecified (for strings it
  follows the hash values, which CPython randomises per process). Wherever the code turns
  such a set into a list, the order is given by a parameter \<open>iteration\<close>, the order in
  which the interpreter iterates a set with the given elements. Results are proved for
  every \<open>iteration\<close> that returns the elements it is given,
  \<open>\<forall>xs. set (iteration xs) = set xs\<close>. A set that the code only receives and iterates
  (the ground-truth terms) is the list of its elements in the order of that iteration.
\<close>

type_synonym 'v dict = "(string \<times> 'v) list"

type_synonym iteration = "string list \<Rightarrow> string list"

definition set_add :: "string \<Rightarrow> string list \<Rightarrow> string list" where
  "set_add x s = (if x \<in> set s then s else s @ [x])"

section \<open>Term curation (preprocess.py)\<close>

definition critical_terms :: "string list" where
  "critical_terms =
     [''confidentiality'', ''security deposit'', ''employee'' @ [CHR 0x27] @ ''s duties'']"

text \<open>The function ends with \<open>return list(extracted_terms)\<close>, on the set it has updated.\<close>

definition ensure_critical_terms :: "iteration \<Rightarrow> string list \<Rightarrow> string \<Rightarrow> string list" where
  "ensure_critical_terms iteration extracted_terms text =
     (let text_lower = lower text in
      iteration
        (foldl (\<lambda>extracted term.
                  if contains term text_lower
                  then (if term \<notin> set extracted then set_add term extracted else extracted)
                  else extracted)
           extracted_terms critical_terms))"

definition ensure_ground_truth_terms :: "string list \<Rightarrow> string list \<Rightarrow> string \<Rightarrow> string list" where
  "ensure_ground_truth_terms extracted_terms ground_truth_terms text =
     (let text_lower = lower text in
      foldl (\<lambda>extracted term.
               if contains term text_lower
               then (if term \<notin> set extracted then extracted @ [term] else extracted)
               else extracted)
        extracted_terms ground_truth_terms)"

definition filter_relevant_terms :: "string list \<Rightarrow> string list \<Rightarrow> string list" where
  "filter_relevant_terms terms ground_truth_terms =
     filter (\<lambda>term. term \<in> set ground_truth_terms) terms"

section \<open>Section mapping (preprocess.py)\<close>

text \<open>The body of the inner loop of \<open>map_terms_to_sections\<close>, for one section and one term.\<close>

definition map_term :: "string \<Rightarrow> string list dict \<Rightarrow> string \<Rightarrow> error + string list dict" where
  "map_term section term_section_map term =
     (if contains term (lower section) then
        (let section_context = replace_newlines (strip section) in
         case map_of term_section_map term of
           None \<Rightarrow> Inl (KeyError term)
         | Some contexts \<Rightarrow>
             if section_context \<notin> set contexts
             then Inr (AList.update term (contexts @ [section_context]) term_section_map)
             else Inr term_section_map)
      else Inr term_section_map)"

text \<open>\<open>for term in terms\<close>\<close>

fun map_terms :: "string \<Rightarrow> string list dict \<Rightarrow> string list \<Rightarrow> error + string list dict" where
  "map_terms section m [] = Inr m"
| "map_terms section m (term # terms) =
     (case map_term section m term of
        Inl e \<Rightarrow> Inl e
      | Inr m' \<Rightarrow> map_terms section m' terms)"

text \<open>\<open>for section in sections\<close>\<close>

fun map_sections :: "string list \<Rightarrow> string list dict \<Rightarrow> string list \<Rightarrow> error + string list dict" where
  "map_sections terms m [] = Inr m"
| "map_sections terms m (section # sections) =
     (case map_terms section m terms of
        Inl e \<Rightarrow> Inl e
      | Inr m' \<Rightarrow> map_sections terms m' sections)"

definition map_terms_to_sections :: "string \<Rightarrow> string list \<Rightarrow> error + string list dict" where
  "map_terms_to_sections text terms =
     (let sections = split_sections text;
          term_section_map = foldl (\<lambda>m term. AList.update term [] m) [] terms
      in case map_sections terms term_section_map sections of
           Inl e \<Rightarrow> Inl e
         | Inr m \<Rightarrow> Inr (filter (\<lambda>(term, contexts). contexts \<noteq> []) m))"

section \<open>Persisted records (preprocess.py, update.py, evaluate.py)\<close>

text \<open>The text written by \<open>save_term_extraction_results\<close>.\<close>

definition save_text :: "string list \<Rightarrow> string list dict \<Rightarrow> string" where
  "save_text terms term_section_map =
     ''Extracted Key Terms:'' @ [NL] @
     concat (map (\<lambda>term. ''- '' @ term @ [NL]) terms) @
     [NL] @ ''Mapped Sections:'' @ [NL] @
     concat (map (\<lambda>(term, sections).
                    [NL] @ ''Term: '' @ term @ [NL] @
                    concat (map (\<lambda>section. ''Section: '' @ section @ [NL] @ [NL] @ ''---'' @ [NL])
                              sections))
               term_section_map)"

text \<open>
  A directory is the list of its files, name and content, in the order of
  \<open>os.listdir\<close>; opening a file for writing replaces its content.
\<close>

type_synonym directory = "(string \<times> string) list"

definition save_term_extraction_results ::
    "directory \<Rightarrow> string \<Rightarrow> string list \<Rightarrow> string list dict \<Rightarrow> directory" where
  "save_term_extraction_results output_directory filename terms term_section_map =
     AList.update (py_replace ''_text.txt'' ''_terms.txt'' filename)
       (save_text terms term_section_map) output_directory"

text \<open>
  The parser of update.py. Its state is the set \<open>terms\<close>, the dictionary
  \<open>term_section_map\<close> and \<open>current_term\<close> (\<open>None\<close> at the start). A current term that
  is \<open>None\<close> or empty is false in \<open>if current_term\<close>.
\<close>

type_synonym parse_state = "string list \<times> string list dict \<times> string option"

definition parse_line :: "parse_state \<Rightarrow> string \<Rightarrow> error + parse_state" where
  "parse_line st line =
     (case st of (terms, term_section_map, current_term) \<Rightarrow>
        if prefix ''- '' line then
          (let term = strip (drop 2 line)
           in Inr (set_add term terms, AList.update term [] term_section_map, Some term))
        else if prefix ''Term:'' line then
          (case py_split (CHR '':'') line of
             _ # p # _ \<Rightarrow> Inr (terms, term_section_map, Some (strip p))
           | _ \<Rightarrow> Inl IndexError)
        else if prefix ''Section:'' line then
          (case current_term of
             None \<Rightarrow> Inr st
           | Some t \<Rightarrow>
               if t = [] then Inr st
               else (case map_of term_section_map t of
                       None \<Rightarrow> Inl (KeyError t)
                     | Some sections \<Rightarrow>
                         Inr (terms,
                              AList.update t (sections @ [strip (drop 9 line)]) term_section_map,
                              current_term)))
        else Inr st)"

fun parse_lines :: "parse_state \<Rightarrow> string list \<Rightarrow> error + parse_state" where
  "parse_lines st [] = Inr st"
| "parse_lines st (line # lines) =
     (case parse_line st line of
        Inl e \<Rightarrow> Inl e
      | Inr st' \<Rightarrow> parse_lines st' lines)"

text \<open>The parser ends with \<open>return list(terms), term_section_map\<close>, \<open>terms\<close> being a set.\<close>

definition parse_term_extraction_results ::
    "iteration \<Rightarrow> string \<Rightarrow> error + string list \<times> string list dict" where
  "parse_term_extraction_results iteration content =
     (case parse_lines ([], [], None) (splitlines content) of
        Inl e \<Rightarrow> Inl e
      | Inr (terms, term_section_map, current_term) \<Rightarrow> Inr (iteration terms, term_section_map))"

text \<open>
  The parser of evaluate.py: \<open>terms\<close> is a list (a repeated bullet is kept twice), and
  terms and sections are lower-cased.
\<close>

definition evaluate_parse_line :: "parse_state \<Rightarrow> string \<Rightarrow> error + parse_state" where
  "evaluate_parse_line st line =
     (case st of (terms, term_section_map, current_term) \<Rightarrow>
        if prefix ''- '' line then
          (let term = lower (strip (drop 2 line))
           in Inr (terms @ [term], AList.update term [] term_section_map, Some term))
        else if prefix ''Term:'' line then
          (case py_split (CHR '':'') line of
             _ # p # _ \<Rightarrow> Inr (terms, term_section_map, Some (lower (strip p)))
           | _ \<Rightarrow> Inl IndexError)
        else if prefix ''Section:'' line then
          (case current_term of
             None \<Rightarrow> Inr st
           | Some t \<Rightarrow>
               if t = [] then Inr st
               else (case map_of term_section_map t of
                       None \<Rightarrow> Inl (KeyError t)
                     | Some sections \<Rightarrow>
                         Inr (terms,
                              AList.update t (sections @ [lower (strip (drop 9 line))])
                                term_section_map,
                              current_term)))
        else Inr st)"

fun evaluate_parse_lines :: "parse_state \<Rightarrow> string list \<Rightarrow> error + parse_state" where
  "evaluate_parse_lines st [] = Inr st"
| "evaluate_parse_lines st (line # lines) =
     (case evaluate_parse_line st line of
        Inl e \<Rightarrow> Inl e
      | Inr st' \<Rightarrow> evaluate_parse_lines st' lines)"

definition evaluate_parse_term_extraction_results ::
    "string \<Rightarrow> error + string list \<times> string list dict" where
  "evaluate_parse_term_extraction_results content =
     (case evaluate_parse_lines ([], [], None) (splitlines content) of
        Inl e \<Rightarrow> Inl e
      | Inr (terms, term_section_map, current_term) \<Rightarrow> Inr (terms, term_section_map))"

section \<open>Extraction pipeline (preprocess.py)\<close>

text \<open>
  \<open>load_text_files\<close>: the documents of a directory, by file name. The text of a file is
  what reading it in text mode returns.
\<close>

definition load_text_files :: "directory \<Rightarrow> directory" where
  "load_text_files text_directory =
     map (\<lambda>(filename, content). (filename, universal_newlines content))
       (filter (\<lambda>(filename, content). endswith filename ''_text.txt'') text_directory)"

text \<open>
  The body of the loop of \<open>process_files\<close>, for one document. The candidate generator
  \<open>extract_key_terms\<close> (YAKE and a named-entity model) is outside the repository's
  logic and is a parameter: it returns a set of candidate terms or raises. No statement
  of the body is inside a \<open>try\<close>, so an exception leaves the function.
\<close>

definition process_file ::
    "iteration \<Rightarrow> (string \<Rightarrow> error + string list) \<Rightarrow> string list \<Rightarrow> directory
      \<Rightarrow> string \<times> string \<Rightarrow> error + directory" where
  "process_file iteration extract_key_terms ground_truth_terms output_directory doc =
     (case doc of (filename, text) \<Rightarrow>
        case extract_key_terms text of
          Inl e \<Rightarrow> Inl e
        | Inr candidates \<Rightarrow>
            (let extracted_terms = ensure_critical_terms iteration candidates text;
                 ensured_terms = ensure_ground_truth_terms extracted_terms ground_truth_terms text;
                 relevant_terms = filter_relevant_terms ensured_terms ground_truth_terms
             in case map_terms_to_sections text relevant_terms of
                  Inl e \<Rightarrow> Inl e
                | Inr term_section_map \<Rightarrow>
                    Inr (save_term_extraction_results output_directory filename
                           relevant_terms term_section_map)))"

text \<open>
  \<open>for filename, text in texts.items()\<close>. The result is the output directory as the loop
  leaves it, and the exception that ended the loop, if any.
\<close>

fun process_documents ::
    "iteration \<Rightarrow> (string \<Rightarrow> error + string list) \<Rightarrow> string list \<Rightarrow> directory \<Rightarrow> directory
      \<Rightarrow> directory \<times> error option" where
  "process_documents iteration extract_key_terms ground_truth_terms output_directory [] =
     (output_directory, None)"
| "process_documents iteration extract_key_terms ground_truth_terms output_directory (doc # docs) =
     (case process_file iteration extract_key_terms ground_truth_terms output_directory doc of
        Inl e \<Rightarrow> (output_directory, Some e)
      | Inr output_directory' \<Rightarrow>
          process_documents iteration extract_key_terms ground_truth_terms output_directory' docs)"

definition process_files ::
    "iteration \<Rightarrow> (string \<Rightarrow> error + string list) \<Rightarrow> directory \<Rightarrow> directory \<Rightarrow> string list
      \<Rightarrow> directory \<times> error option" where
  "process_files iteration extract_key_terms text_directory output_directory ground_truth_terms =
     process_documents iteration extract_key_terms ground_truth_terms output_directory
       (load_text_files text_directory)"

section \<open>Change monitor (update.py)\<close>

text \<open>
  The digest function of \<open>hashlib\<close> is a parameter \<open>md5\<close> from file contents to hash
  values. Files are named by their name inside the results directory, which is also what
  \<open>os.path.basename\<close> returns for their path.
\<close>

definition compute_file_hash :: "(string \<Rightarrow> 'h) \<Rightarrow> directory \<Rightarrow> string \<Rightarrow> error + 'h" where
  "compute_file_hash md5 results_directory file_path =
     (case map_of results_directory file_path of
        None \<Rightarrow> Inl (FileNotFoundError file_path)
      | Some content \<Rightarrow> Inr (md5 content))"

definition compute_initial_hashes :: "(string \<Rightarrow> 'h) \<Rightarrow> directory \<Rightarrow> 'h dict" where
  "compute_initial_hashes md5 results_directory =
     foldl (\<lambda>file_hashes (filename, content).
              if endswith filename ''_terms.txt''
              then AList.update filename (md5 content) file_hashes else file_hashes)
       [] results_directory"

type_synonym results = "(string list \<times> string list dict) dict"

fun load_results :: "iteration \<Rightarrow> results \<Rightarrow> directory \<Rightarrow> error + results" where
  "load_results iteration results [] = Inr results"
| "load_results iteration results ((filename, content) # files) =
     (if endswith filename ''_terms.txt'' then
        (case parse_term_extraction_results iteration (universal_newlines content) of
           Inl e \<Rightarrow> Inl e
         | Inr parsed \<Rightarrow> load_results iteration (AList.update filename parsed results) files)
      else load_results iteration results files)"

definition load_term_extraction_results :: "iteration \<Rightarrow> directory \<Rightarrow> error + results" where
  "load_term_extraction_results iteration results_directory =
     load_results iteration [] results_directory"

text \<open>
  The log of the monitor, reduced to the events of \<open>monitor_changes\<close>: a detected
  modification, the display of a document's terms and sections (the lines that
  \<open>display_terms\<close> writes are a function of the two), and an unchanged file.
\<close>

datatype event =
    Detected string
  | Displayed "string list" "string list dict"
  | NoChange string

text \<open>The state of the updater: \<open>file_hashes\<close>, \<open>term_extraction_results\<close> and the log.\<close>

type_synonym 'h monitor = "'h dict \<times> results \<times> event list"

definition init_updater ::
    "(string \<Rightarrow> 'h) \<Rightarrow> iteration \<Rightarrow> directory \<Rightarrow> error + 'h monitor" where
  "init_updater md5 iteration results_directory =
     (case load_term_extraction_results iteration results_directory of
        Inl e \<Rightarrow> Inl e
      | Inr results \<Rightarrow> Inr (compute_initial_hashes md5 results_directory, results, []))"

text \<open>
  The body of the \<open>for\<close> loop of \<open>monitor_changes\<close>, for one entry of \<open>file_hashes\<close>.
  The state is returned together with the exception that left the loop, if any: the
  assignments made before the exception stay.
\<close>

definition poll_file ::
    "(string \<Rightarrow> 'h) \<Rightarrow> iteration \<Rightarrow> directory \<Rightarrow> 'h monitor \<Rightarrow> string \<times> 'h
      \<Rightarrow> 'h monitor \<times> error option" where
  "poll_file md5 iteration results_directory st entry =
     (case st of (file_hashes, results, log) \<Rightarrow>
      case entry of (file_path, old_hash) \<Rightarrow>
        case compute_file_hash md5 results_directory file_path of
          Inl e \<Rightarrow> (st, Some e)
        | Inr new_hash \<Rightarrow>
            if new_hash \<noteq> old_hash then
              (let file_hashes' = AList.update file_path new_hash file_hashes;
                   log' = log @ [Detected file_path]
               in case load_term_extraction_results iteration results_directory of
                    Inl e \<Rightarrow> ((file_hashes', results, log'), Some e)
                  | Inr results' \<Rightarrow>
                      (case map_of results' file_path of
                         None \<Rightarrow> ((file_hashes', results', log'), Some (KeyError file_path))
                       | Some (terms, term_section_map) \<Rightarrow>
                           ((file_hashes', results', log' @ [Displayed terms term_section_map]),
                            None)))
            else ((file_hashes, results, log @ [NoChange file_path]), None))"

text \<open>\<open>for file_path, old_hash in self.file_hashes.items()\<close>\<close>

fun poll_files ::
    "(string \<Rightarrow> 'h) \<Rightarrow> iteration \<Rightarrow> directory \<Rightarrow> 'h monitor \<Rightarrow> 'h dict
      \<Rightarrow> 'h monitor \<times> error option" where
  "poll_files md5 iteration results_directory st [] = (st, None)"
| "poll_files md5 iteration results_directory st (entry # entries) =
     (case poll_file md5 iteration results_directory st entry of
        (st', Some e) \<Rightarrow> (st', Some e)
      | (st', None) \<Rightarrow> poll_files md5 iteration results_directory st' entries)"

text \<open>One pass of the \<open>while\<close> loop: one poll of every watched file.\<close>

definition poll_tick ::
    "(string \<Rightarrow> 'h) \<Rightarrow> iteration \<Rightarrow> directory \<Rightarrow> 'h monitor \<Rightarrow> 'h monitor \<times> error option" where
  "poll_tick md5 iteration results_directory st =
     poll_files md5 iteration results_directory st (fst st)"

text \<open>
  \<open>monitor_changes\<close> loops for ever; the model runs one pass for each given state of
  the results directory, the state the directory is in when that pass polls it.
\<close>

fun monitor_changes ::
    "(string \<Rightarrow> 'h) \<Rightarrow> iteration \<Rightarrow> 'h monitor \<Rightarrow> directory list
      \<Rightarrow> 'h monitor \<times> error option" where
  "monitor_changes md5 iteration st [] = (st, None)"
| "monitor_changes md5 iteration st (results_directory # later) =
     (case poll_tick md5 iteration results_directory st of
        (st', Some e) \<Rightarrow> (st', Some e)
      | (st', None) \<Rightarrow> monitor_changes md5 iteration st' later)"

section \<open>The record as the specification describes it\<close>

text \<open>
  The section list of a term, written from the words of the specification and not from
  the code: the whitespace-collapsed, trimmed text of every section that matches the term
  case-insensitively, duplicates by exact string suppressed, in the order of first
  occurrence.
\<close>

text \<open>Each element once, at the place where it occurs first.\<close>

fun first_occurrences :: "'a list \<Rightarrow> 'a list" where
  "first_occurrences [] = []"
| "first_occurrences (x # xs) = x # first_occurrences (removeAll x xs)"

text \<open>Trimmed: without the whitespace at the two ends.\<close>

primrec without_trailing_space :: "string \<Rightarrow> string" where
  "without_trailing_space [] = []"
| "without_trailing_space (c # cs) =
     (if is_space c \<and> without_trailing_space cs = [] then []
      else c # without_trailing_space cs)"

definition trimmed :: "string \<Rightarrow> string" where
  "trimmed s = without_trailing_space (dropWhile is_space s)"

text \<open>
  Whitespace-collapsed, which the data model of the specification defines as "newlines
  replaced by spaces": every newline becomes one space and no other character changes.
\<close>

primrec newlines_as_spaces :: "string \<Rightarrow> string" where
  "newlines_as_spaces [] = []"
| "newlines_as_spaces (c # cs) =
     (if c = NL then SP # newlines_as_spaces cs else c # newlines_as_spaces cs)"

text \<open>
  A section matches a term case-insensitively when the term, letter case ignored, is a
  contiguous part of the section, letter case ignored.
\<close>

definition matches_ignoring_case :: "string \<Rightarrow> string \<Rightarrow> bool" where
  "matches_ignoring_case term section = sublist (lower term) (lower section)"

definition specified_contexts :: "string \<Rightarrow> string \<Rightarrow> string list" where
  "specified_contexts text term =
     first_occurrences
       (map (\<lambda>section. newlines_as_spaces (trimmed section))
          (filter (matches_ignoring_case term) (split_sections text)))"

section \<open>Auxiliary definitions of the proofs\<close>

text \<open>
  The section list that the loops of \<open>map_terms_to_sections\<close> collect for one term, and
  the effect of one section on it.
\<close>

definition collected_contexts :: "string \<Rightarrow> string \<Rightarrow> string list" where
  "collected_contexts text term =
     first_occurrences
       (map (\<lambda>section. replace_newlines (strip section))
          (filter (\<lambda>section. contains term (lower section)) (split_sections text)))"

definition add_context :: "string \<Rightarrow> string list \<Rightarrow> string \<Rightarrow> string list" where
  "add_context term contexts section =
     (if contains term (lower section) \<and> replace_newlines (strip section) \<notin> set contexts
      then contexts @ [replace_newlines (strip section)] else contexts)"

section \<open>What the record format can hold\<close>

text \<open>
  A term that the format can hold: not empty, equal to its own \<open>strip()\<close>, without
  line boundary and without colon. A section context that the format can hold: equal to
  its own \<open>strip()\<close> and without line boundary.
\<close>

definition storable_term :: "string \<Rightarrow> bool" where
  "storable_term t = (t \<noteq> [] \<and> strip t = t \<and> \<not> list_ex is_linebreak t \<and> CHR '':'' \<notin> set t)"

definition storable_section :: "string \<Rightarrow> bool" where
  "storable_section s = (strip s = s \<and> \<not> list_ex is_linebreak s)"

text \<open>The lines of the saved text, used in the proofs.\<close>

definition unlines :: "string list \<Rightarrow> string" where
  "unlines ls = concat (map (\<lambda>l. l @ [NL]) ls)"

definition block_lines :: "string \<times> string list \<Rightarrow> string list" where
  "block_lines b =
     (case b of (term, sections) \<Rightarrow>
        [[], ''Term: '' @ term] @
        concat (map (\<lambda>section. [''Section: '' @ section, [], ''---'']) sections))"

definition save_lines :: "string list \<Rightarrow> string list dict \<Rightarrow> string list" where
  "save_lines terms term_section_map =
     [''Extracted Key Terms:''] @ map (\<lambda>term. ''- '' @ term) terms @
     [[], ''Mapped Sections:''] @ concat (map block_lines term_section_map)"

section \<open>Characters and substrings\<close>

lemma code_lower_char:
  "code (lower_char c) =
     (if (65 \<le> code c \<and> code c \<le> 90) \<or> (192 \<le> code c \<and> code c \<le> 214) \<or>
         (216 \<le> code c \<and> code c \<le> 222)
      then code c + 32 else code c)"
  by (auto simp: lower_char_def code_def Let_def)

lemma is_space_lower_char [simp]: "is_space (lower_char c) = is_space c"
  unfolding is_space_def Let_def code_lower_char by auto

lemma code_eq_iff: "code c = code d \<longleftrightarrow> c = d"
  by (simp add: code_def)

lemma code_NL: "code NL = 10"
  by (simp add: code_def)

lemma lower_char_eq_NL [simp]: "lower_char c = NL \<longleftrightarrow> c = NL"
proof -
  have "lower_char c = NL \<longleftrightarrow> code (lower_char c) = 10"
    using code_eq_iff [of "lower_char c" NL] by (simp add: code_NL)
  also have "\<dots> \<longleftrightarrow> code c = 10"
    unfolding code_lower_char by auto
  also have "\<dots> \<longleftrightarrow> c = NL"
    using code_eq_iff [of c NL] by (simp add: code_NL)
  finally show ?thesis .
qed

lemma contains_iff: "contains sub s \<longleftrightarrow> (\<exists>p q. s = p @ sub @ q)"
proof (induction s)
  case Nil
  then show ?case by auto
next
  case (Cons c cs)
  show ?case
  proof
    assume "contains sub (c # cs)"
    then consider "prefix sub (c # cs)" | "contains sub cs" by auto
    then show "\<exists>p q. c # cs = p @ sub @ q"
    proof cases
      case 1
      then obtain q where "c # cs = sub @ q" by (auto simp: prefix_def)
      then have "c # cs = [] @ sub @ q" by simp
      then show ?thesis by blast
    next
      case 2
      with Cons.IH obtain p q where "cs = p @ sub @ q" by blast
      then have "c # cs = (c # p) @ sub @ q" by simp
      then show ?thesis by blast
    qed
  next
    assume "\<exists>p q. c # cs = p @ sub @ q"
    then obtain p q where pq: "c # cs = p @ sub @ q" by blast
    show "contains sub (c # cs)"
    proof (cases p)
      case Nil
      with pq have "prefix sub (c # cs)" by (simp add: prefix_def)
      then show ?thesis by simp
    next
      case (Cons a p')
      with pq have "cs = p' @ sub @ q" by simp
      with Cons.IH have "contains sub cs" by blast
      then show ?thesis by simp
    qed
  qed
qed

section \<open>The section mapper computes the specified record\<close>

lemma add_context_idem: "add_context t (add_context t cs s) s = add_context t cs s"
  by (simp add: add_context_def)

lemma map_term_Some:
  "map_of m t = Some cs \<Longrightarrow> map_term s m t = Inr (AList.update t (add_context t cs s) m)"
  by (simp add: map_term_def add_context_def Let_def AList.update_triv)

lemma map_fst_update_present:
  "map_of m t = Some cs \<Longrightarrow> map fst (AList.update t v m) = map fst m"
  by (auto simp: AList.update_keys dest: map_of_SomeD intro: rev_image_eqI)

lemma map_terms_lookup:
  "\<forall>t\<in>set ts. map_of m t \<noteq> None \<Longrightarrow>
   \<exists>m'. map_terms s m ts = Inr m' \<and> map fst m' = map fst m \<and>
     (\<forall>k. map_of m' k =
        (if k \<in> set ts then map_option (\<lambda>cs. add_context k cs s) (map_of m k) else map_of m k))"
proof (induction ts arbitrary: m)
  case Nil
  then show ?case by simp
next
  case (Cons t ts)
  then obtain cs where cs: "map_of m t = Some cs" by auto
  let ?m1 = "AList.update t (add_context t cs s) m"
  have step: "map_term s m t = Inr ?m1" using cs by (rule map_term_Some)
  have keys1: "map fst ?m1 = map fst m" using cs by (rule map_fst_update_present)
  have look1: "map_of ?m1 k = (if k = t then Some (add_context t cs s) else map_of m k)" for k
    by (simp add: AList.update_conv')
  have "\<forall>t\<in>set ts. map_of ?m1 t \<noteq> None"
    using Cons.prems by (simp add: look1)
  from Cons.IH [OF this] obtain m' where m':
    "map_terms s ?m1 ts = Inr m'" "map fst m' = map fst ?m1"
    "\<And>k. map_of m' k =
        (if k \<in> set ts then map_option (\<lambda>cs. add_context k cs s) (map_of ?m1 k) else map_of ?m1 k)"
    by blast
  have "map_terms s m (t # ts) = Inr m'" using step m'(1) by simp
  moreover have "map fst m' = map fst m" using m'(2) keys1 by simp
  moreover have "map_of m' k =
        (if k \<in> set (t # ts) then map_option (\<lambda>cs. add_context k cs s) (map_of m k) else map_of m k)" for k
    using cs by (simp add: m'(3) look1 add_context_idem)
  ultimately show ?case by blast
qed

lemma map_sections_lookup:
  "\<forall>t\<in>set ts. map_of m t \<noteq> None \<Longrightarrow>
   \<exists>m'. map_sections ts m secs = Inr m' \<and> map fst m' = map fst m \<and>
     (\<forall>k. map_of m' k =
        (if k \<in> set ts then map_option (\<lambda>cs. foldl (add_context k) cs secs) (map_of m k)
         else map_of m k))"
proof (induction secs arbitrary: m)
  case Nil
  then show ?case by (simp add: option.map_ident)
next
  case (Cons s secs)
  from map_terms_lookup [OF Cons.prems, of s] obtain m1 where m1:
    "map_terms s m ts = Inr m1" "map fst m1 = map fst m"
    "\<And>k. map_of m1 k =
        (if k \<in> set ts then map_option (\<lambda>cs. add_context k cs s) (map_of m k) else map_of m k)"
    by blast
  have "\<forall>t\<in>set ts. map_of m1 t \<noteq> None"
    using Cons.prems by (simp add: m1(3))
  from Cons.IH [OF this] obtain m' where m':
    "map_sections ts m1 secs = Inr m'" "map fst m' = map fst m1"
    "\<And>k. map_of m' k =
        (if k \<in> set ts then map_option (\<lambda>cs. foldl (add_context k) cs secs) (map_of m1 k)
         else map_of m1 k)"
    by blast
  have "map_sections ts m (s # secs) = Inr m'" using m1(1) m'(1) by simp
  moreover have "map fst m' = map fst m" using m1(2) m'(2) by simp
  moreover have "map_of m' k =
        (if k \<in> set ts then map_option (\<lambda>cs. foldl (add_context k) cs (s # secs)) (map_of m k)
         else map_of m k)" for k
    by (simp add: m'(3) m1(3) option.map_comp comp_def)
  ultimately show ?case by blast
qed

lemma map_of_empty_dict:
  "map_of (foldl (\<lambda>m t. AList.update t [] m) m ts) k =
     (if k \<in> set ts then Some [] else map_of m k)"
  by (induction ts arbitrary: m) (auto simp: AList.update_conv')

lemma distinct_empty_dict:
  "distinct (map fst m) \<Longrightarrow> distinct (map fst (foldl (\<lambda>m t. AList.update t [] m) m ts))"
  by (induction ts arbitrary: m) (auto simp: AList.distinct_update)

lemma keys_empty_dict:
  "fst ` set (foldl (\<lambda>m t. AList.update t [] m) m ts) = fst ` set m \<union> set ts"
  by (induction ts arbitrary: m) (auto simp: AList.dom_update)

lemma map_of_filter_distinct:
  "distinct (map fst m) \<Longrightarrow>
   map_of (filter P m) k =
     (case map_of m k of None \<Rightarrow> None | Some v \<Rightarrow> if P (k, v) then Some v else None)"
proof (induction m)
  case Nil
  then show ?case by simp
next
  case (Cons p m)
  obtain a b where p: "p = (a, b)" by (cases p)
  from Cons.prems p have notin: "a \<notin> fst ` set m" and dm: "distinct (map fst m)" by auto
  from notin have none: "map_of m a = None" by (simp add: map_of_eq_None_iff)
  show ?case using Cons.IH [OF dm] none by (auto simp: p split: option.splits)
qed

lemma foldl_add_context:
  "foldl (add_context t) acc secs =
     acc @ first_occurrences
       (filter (\<lambda>x. x \<notin> set acc)
          (map (\<lambda>s. replace_newlines (strip s)) (filter (\<lambda>s. contains t (lower s)) secs)))"
proof (induction secs arbitrary: acc)
  case Nil
  then show ?case by simp
next
  case (Cons s secs)
  show ?case
  proof (cases "contains t (lower s) \<and> replace_newlines (strip s) \<notin> set acc")
    case True
    then have "add_context t acc s = acc @ [replace_newlines (strip s)]"
      by (simp add: add_context_def)
    then show ?thesis using True
      by (simp add: Cons.IH removeAll_filter_not_eq conj_commute eq_commute)
  next
    case False
    then have "add_context t acc s = acc" by (simp add: add_context_def)
    then show ?thesis using False by (auto simp: Cons.IH)
  qed
qed

lemma foldl_add_context_matching:
  "foldl (add_context t) [] (split_sections text) = collected_contexts text t"
  by (simp add: foldl_add_context collected_contexts_def)

lemma map_terms_to_sections_lookup:
  "\<exists>record. map_terms_to_sections text terms = Inr record \<and>
     distinct (map fst record) \<and>
     (\<forall>term. map_of record term =
        (if term \<in> set terms \<and> collected_contexts text term \<noteq> []
         then Some (collected_contexts text term) else None))"
proof -
  let ?init = "foldl (\<lambda>m t. AList.update t [] m) [] terms :: string list dict"
  have look0: "map_of ?init k = (if k \<in> set terms then Some [] else None)" for k
    by (simp add: map_of_empty_dict)
  have d0: "distinct (map fst ?init)" by (rule distinct_empty_dict) simp
  have "\<forall>t\<in>set terms. map_of ?init t \<noteq> None" by (simp add: look0)
  from map_sections_lookup [OF this, of "split_sections text"] obtain m' where m':
    "map_sections terms ?init (split_sections text) = Inr m'" "map fst m' = map fst ?init"
    "\<And>k. map_of m' k =
        (if k \<in> set terms
         then map_option (\<lambda>cs. foldl (add_context k) cs (split_sections text)) (map_of ?init k)
         else map_of ?init k)"
    by blast
  have look': "map_of m' k = (if k \<in> set terms then Some (collected_contexts text k) else None)" for k
    by (simp add: m'(3) look0 foldl_add_context_matching)
  have d': "distinct (map fst m')" using m'(2) d0 by simp
  let ?res = "filter (\<lambda>(term, contexts). contexts \<noteq> []) m'"
  have "map_terms_to_sections text terms = Inr ?res"
    using m'(1) by (simp add: map_terms_to_sections_def Let_def)
  moreover have "distinct (map fst ?res)" using d' by (simp add: distinct_map_filter)
  moreover have "map_of ?res k =
        (if k \<in> set terms \<and> collected_contexts text k \<noteq> []
         then Some (collected_contexts text k) else None)" for k
    by (simp add: map_of_filter_distinct [OF d'] look')
  ultimately show ?thesis by blast
qed

section \<open>Evidence, record and subset laws\<close>

lemma set_first_occurrences [simp]: "set (first_occurrences xs) = set xs"
  by (induction xs rule: first_occurrences.induct) auto

lemma distinct_first_occurrences: "distinct (first_occurrences xs)"
  by (induction xs rule: first_occurrences.induct) auto

lemma dropWhile_keeps_middle:
  assumes "m \<noteq> []" "\<not> P (hd m)"
  shows "\<exists>p1. dropWhile P (p @ m @ q) = p1 @ m @ q"
proof -
  from assms have fixed: "dropWhile P (m @ q) = m @ q"
    by (cases m) auto
  show ?thesis
  proof (cases "\<forall>x\<in>set p. P x")
    case True
    then have "dropWhile P (p @ (m @ q)) = dropWhile P (m @ q)"
      by simp
    then have "dropWhile P (p @ m @ q) = [] @ m @ q"
      using fixed by simp
    then show ?thesis by blast
  next
    case False
    then obtain x where "x \<in> set p" "\<not> P x" by blast
    then have "dropWhile P (p @ (m @ q)) = dropWhile P p @ (m @ q)"
      by (rule dropWhile_append1)
    then show ?thesis by blast
  qed
qed

lemma strip_keeps_middle:
  assumes "m \<noteq> []" "\<not> is_space (hd m)" "\<not> is_space (last m)"
  shows "\<exists>p2 q2. strip (p @ m @ q) = p2 @ m @ q2"
proof -
  from dropWhile_keeps_middle [of m is_space p q, OF assms(1,2)] obtain p1
    where p1: "dropWhile is_space (p @ m @ q) = p1 @ m @ q" by blast
  have "rev m \<noteq> []" "\<not> is_space (hd (rev m))"
    using assms by (simp_all add: hd_rev)
  from dropWhile_keeps_middle [of "rev m" is_space "rev q" "rev p1", OF this] obtain q1
    where q1: "dropWhile is_space (rev q @ rev m @ rev p1) = q1 @ rev m @ rev p1" by blast
  have "strip (p @ m @ q) = p1 @ m @ rev q1"
    by (simp add: strip_def p1 q1)
  then show ?thesis by blast
qed

lemma strip_fixed_ends:
  assumes "strip t = t" "t \<noteq> []"
  shows "\<not> is_space (hd t) \<and> \<not> is_space (last t)"
proof -
  have len: "length (strip t) \<le> length (dropWhile is_space t)"
    using length_dropWhile_le [of is_space "rev (dropWhile is_space t)"] by (simp add: strip_def)
  have "length (dropWhile is_space t) \<le> length t" by (rule length_dropWhile_le)
  with len assms(1) have "length (dropWhile is_space t) = length t" by simp
  have front: "dropWhile is_space t = t"
  proof (rule ccontr)
    assume "dropWhile is_space t \<noteq> t"
    then have "is_space (hd t)" using assms(2) by (simp add: dropWhile_eq_self_iff)
    then have "length (dropWhile is_space t) < length t"
      using assms(2) length_dropWhile_le [of is_space "tl t"] by (cases t) auto
    with \<open>length (dropWhile is_space t) = length t\<close> show False by simp
  qed
  then have hd: "\<not> is_space (hd t)" using assms(2) by (simp add: dropWhile_eq_self_iff)
  from assms(1) front have "rev (dropWhile is_space (rev t)) = t" by (simp add: strip_def)
  then have "dropWhile is_space (rev t) = rev t" by (metis rev_rev_ident)
  then have "\<not> is_space (hd (rev t))" using assms(2) by (simp add: dropWhile_eq_self_iff)
  then have "\<not> is_space (last t)" by (simp add: hd_rev)
  with hd show ?thesis by simp
qed

lemma replace_newlines_id: "NL \<notin> set s \<Longrightarrow> replace_newlines s = s"
  by (induction s) (auto simp: replace_newlines_def)

lemma context_keeps_term:
  assumes "contains t (lower s)" "strip t = t" "NL \<notin> set t"
  shows "contains t (lower (replace_newlines (strip s)))"
proof (cases "t = []")
  case True
  have "lower (replace_newlines (strip s)) = [] @ [] @ lower (replace_newlines (strip s))" by simp
  then show ?thesis unfolding True contains_iff by blast
next
  case False
  from assms(1) obtain p q where "map lower_char s = p @ t @ q"
    by (auto simp: contains_iff lower_def)
  then obtain p' r where s1: "s = p' @ r" and "t @ q = map lower_char r"
    by (auto simp: map_eq_append_conv)
  from this(2) [symmetric] obtain t' q' where r: "r = t' @ q'" and t': "t = map lower_char t'"
    by (auto simp: map_eq_append_conv)
  from t' False have ne: "t' \<noteq> []" by auto
  from strip_fixed_ends [OF assms(2) False]
  have "\<not> is_space (hd t')" "\<not> is_space (last t')"
    using t' ne by (auto simp: hd_map last_map)
  from strip_keeps_middle [OF ne this] obtain p2 q2
    where st: "strip (p' @ t' @ q') = p2 @ t' @ q2" by blast
  have "NL \<notin> set t'"
  proof
    assume "NL \<in> set t'"
    then have "lower_char NL \<in> set t" unfolding t' by simp
    moreover have "lower_char NL = NL" by simp
    ultimately show False using assms(3) by simp
  qed
  then have "replace_newlines t' = t'" by (rule replace_newlines_id)
  then have "lower (replace_newlines (strip s)) =
      lower (replace_newlines p2) @ t @ lower (replace_newlines q2)"
    using st s1 r t' by (simp add: lower_def replace_newlines_def)
  then show ?thesis unfolding contains_iff by blast
qed

text \<open>
  C10. Evidence soundness: for a term without newline and without leading or trailing
  whitespace (\<open>term.strip() == term\<close>), every section context stored for the term in the
  record returned by \<open>map_terms_to_sections\<close> contains the term as a case-insensitive
  substring: trimming the section and replacing its newlines do not destroy the occurrence
  that made the section match.
\<close>

theorem stored_context_contains_term:
  assumes "map_terms_to_sections text terms = Inr record"
    and "map_of record term = Some contexts"
    and "section_context \<in> set contexts"
    and "strip term = term"
    and "NL \<notin> set term"
  shows "contains term (lower section_context)"
proof -
  from map_terms_to_sections_lookup [of "text" terms] assms(1)
  have look: "map_of record term =
      (if term \<in> set terms \<and> collected_contexts text term \<noteq> []
       then Some (collected_contexts text term) else None)"
    by auto
  with assms(2) have "contexts = collected_contexts text term"
    by (simp split: if_splits)
  with assms(3) obtain s where "contains term (lower s)"
    and "section_context = replace_newlines (strip s)"
    by (auto simp: collected_contexts_def)
  with context_keeps_term [OF _ assms(4,5)] show ?thesis by simp
qed

theorem stored_context_contains_term_witness:
  "map_terms_to_sections (''1. Fee'' @ [NL] @ ''due'') [''fee''] = Inr [(''fee'', [''1. Fee due''])] \<and>
   strip ''fee'' = ''fee'' \<and> NL \<notin> set ''fee'' \<and> contains ''fee'' (lower ''1. Fee due'')"
proof -
  have m: "map_terms_to_sections (''1. Fee'' @ [NL] @ ''due'') [''fee''] = Inr [(''fee'', [''1. Fee due''])]"
    by code_simp
  have l: "map_of [(''fee'', [''1. Fee due''])] ''fee'' = Some [''1. Fee due'']" by simp
  have i: "''1. Fee due'' \<in> set [''1. Fee due'']" by simp
  have s: "strip ''fee'' = ''fee''" by code_simp
  have n: "NL \<notin> set ''fee''" by simp
  from stored_context_contains_term [OF m l i s n] m s n show ?thesis by simp
qed

lemma without_trailing_space_rev:
  "without_trailing_space s = rev (dropWhile is_space (rev s))"
proof (induction s)
  case Nil
  show ?case by simp
next
  case (Cons c cs)
  show ?case
  proof (cases "\<forall>x\<in>set cs. is_space x")
    case True
    then have w: "without_trailing_space cs = []" by (simp add: Cons.IH)
    have "dropWhile is_space (rev cs @ [c]) = dropWhile is_space [c]"
      by (rule dropWhile_append2) (use True in auto)
    then have d: "dropWhile is_space (rev (c # cs)) = dropWhile is_space [c]"
      by (simp only: rev.simps)
    show ?thesis unfolding d by (simp add: w)
  next
    case False
    then have w: "without_trailing_space cs \<noteq> []" by (simp add: Cons.IH)
    from False obtain x where "x \<in> set (rev cs)" "\<not> is_space x" by auto
    then have "dropWhile is_space (rev cs @ [c]) = dropWhile is_space (rev cs) @ [c]"
      by (rule dropWhile_append1)
    then have d: "dropWhile is_space (rev (c # cs)) = dropWhile is_space (rev cs) @ [c]"
      by (simp only: rev.simps)
    show ?thesis unfolding d using w by (simp add: Cons.IH)
  qed
qed

lemma trimmed_strip: "trimmed s = strip s"
  by (simp add: trimmed_def strip_def without_trailing_space_rev)

lemma newlines_as_spaces_replace: "newlines_as_spaces s = replace_newlines s"
  by (induction s) (simp_all add: replace_newlines_def)

lemma matches_ignoring_case_contains:
  "lower t = t \<Longrightarrow> matches_ignoring_case t s = contains t (lower s)"
  by (simp add: matches_ignoring_case_def contains_iff sublist_def)

lemma specified_collected:
  "lower t = t \<Longrightarrow> specified_contexts text t = collected_contexts text t"
  by (simp add: specified_contexts_def collected_contexts_def trimmed_strip
      newlines_as_spaces_replace matches_ignoring_case_contains cong: filter_cong)

text \<open>
  C9, as amended. For every text and every list of lower-case terms (the terms of the
  pipeline are lower-cased where they enter it), \<open>map_terms_to_sections\<close> returns a record
  (it does not raise); the record has an entry for a term exactly when the term is in the
  list and its section list is not empty, and the entry is the section list as the
  specification words it: the trimmed text, every newline replaced by a space, of every
  section that matches the term case-insensitively, exact duplicates suppressed, in the
  order of first occurrence.
\<close>

theorem map_terms_to_sections_record:
  assumes "\<forall>term\<in>set terms. lower term = term"
  shows "\<exists>record. map_terms_to_sections text terms = Inr record \<and>
     (\<forall>term. map_of record term =
        (if term \<in> set terms \<and> specified_contexts text term \<noteq> []
         then Some (specified_contexts text term) else None))"
proof -
  from map_terms_to_sections_lookup [of "text" terms] obtain rcd where
    r: "map_terms_to_sections text terms = Inr rcd" and
    look: "\<And>t. map_of rcd t =
        (if t \<in> set terms \<and> collected_contexts text t \<noteq> []
         then Some (collected_contexts text t) else None)"
    by blast
  have "map_of rcd t =
        (if t \<in> set terms \<and> specified_contexts text t \<noteq> []
         then Some (specified_contexts text t) else None)" for t
  proof (cases "t \<in> set terms")
    case True
    with assms have "specified_contexts text t = collected_contexts text t"
      by (simp add: specified_collected)
    then show ?thesis by (simp add: look)
  next
    case False
    then show ?thesis by (simp add: look)
  qed
  with r show ?thesis by blast
qed

theorem map_terms_to_sections_record_witness:
  "lower ''fee'' = ''fee'' \<and> lower ''rent'' = ''rent'' \<and> lower ''zz'' = ''zz'' \<and>
   map_terms_to_sections (''1. Fee'' @ [NL] @ ''due'' @ [NL] @ ''1. Fee due 2. Rent'')
     [''fee'', ''rent'', ''zz''] =
     Inr [(''fee'', [''1. Fee due'']), (''rent'', [''2. Rent''])] \<and>
   specified_contexts (''1. Fee'' @ [NL] @ ''due'' @ [NL] @ ''1. Fee due 2. Rent'') ''fee'' =
     [''1. Fee due''] \<and>
   specified_contexts (''1. Fee'' @ [NL] @ ''due'' @ [NL] @ ''1. Fee due 2. Rent'') ''zz'' = []"
proof -
  let ?text = "''1. Fee'' @ [NL] @ ''due'' @ [NL] @ ''1. Fee due 2. Rent''"
  have l: "\<forall>term\<in>set [''fee'', ''rent'', ''zz'']. lower term = term" by code_simp
  have v: "map_terms_to_sections ?text [''fee'', ''rent'', ''zz''] =
     Inr [(''fee'', [''1. Fee due'']), (''rent'', [''2. Rent''])]"
    by code_simp
  from map_terms_to_sections_record [OF l, of ?text]
  obtain r where r: "map_terms_to_sections ?text [''fee'', ''rent'', ''zz''] = Inr r"
    and look: "\<And>t. map_of r t =
        (if t \<in> set [''fee'', ''rent'', ''zz''] \<and> specified_contexts ?text t \<noteq> []
         then Some (specified_contexts ?text t) else None)"
    by blast
  from r v have req: "r = [(''fee'', [''1. Fee due'']), (''rent'', [''2. Rent''])]" by simp
  have "specified_contexts ?text ''fee'' = [''1. Fee due'']"
    using look [of "''fee''"] unfolding req by (simp split: if_splits)
  moreover have "specified_contexts ?text ''zz'' = []"
    using look [of "''zz''"] unfolding req by (simp split: if_splits)
  ultimately show ?thesis using l v by simp
qed

theorem mixed_case_term_counterexample:
  "map_terms_to_sections ''1. Fee due'' [''Fee''] = Inr [] \<and>
   specified_contexts ''1. Fee due'' ''Fee'' = [''1. Fee due'']"
  by code_simp

text \<open>
  C2. Every term that \<open>filter_relevant_terms\<close> returns is a ground-truth term, for any
  list of terms it is given (so for the list the curation steps produce from any text and
  any candidate set), and every key of the record that \<open>map_terms_to_sections\<close> builds
  from that list is a ground-truth term.
\<close>

theorem relevant_terms_in_ground_truth:
  "set (filter_relevant_terms terms ground_truth_terms) \<subseteq> set ground_truth_terms \<and>
   (\<exists>record.
      map_terms_to_sections text (filter_relevant_terms terms ground_truth_terms) = Inr record \<and>
      fst ` set record \<subseteq> set ground_truth_terms)"
proof -
  let ?rel = "filter_relevant_terms terms ground_truth_terms"
  have rel: "set ?rel \<subseteq> set ground_truth_terms"
    by (auto simp: filter_relevant_terms_def)
  from map_terms_to_sections_lookup [of "text" "?rel"] obtain rcd where
    r: "map_terms_to_sections text ?rel = Inr rcd" and
    look: "\<And>term. map_of rcd term =
        (if term \<in> set ?rel \<and> collected_contexts text term \<noteq> []
         then Some (collected_contexts text term) else None)"
    by blast
  have "fst ` set rcd \<subseteq> set ?rel"
  proof
    fix k assume "k \<in> fst ` set rcd"
    then have "map_of rcd k \<noteq> None" by (simp add: map_of_eq_None_iff)
    then show "k \<in> set ?rel" by (simp add: look split: if_splits)
  qed
  with rel r show ?thesis by blast
qed

theorem relevant_terms_in_ground_truth_witness:
  "filter_relevant_terms [''fee'', ''term''] [''term'', ''rent''] = [''term''] \<and>
   map_terms_to_sections ''1. Term ends'' [''term''] = Inr [(''term'', [''1. Term ends''])] \<and>
   set (filter_relevant_terms [''fee'', ''term''] [''term'', ''rent'']) \<subseteq> set [''term'', ''rent'']"
proof -
  have f: "filter_relevant_terms [''fee'', ''term''] [''term'', ''rent''] = [''term'']"
    by code_simp
  have m: "map_terms_to_sections ''1. Term ends'' [''term''] = Inr [(''term'', [''1. Term ends''])]"
    by code_simp
  show ?thesis
    using relevant_terms_in_ground_truth [of "[''fee'', ''term'']" "[''term'', ''rent'']" "''1. Term ends''"] f m
    by simp
qed

section \<open>Section reconstruction\<close>

lemma concat_split_sections_acc:
  "concat (split_sections_acc pw cur s) = cur @ s"
  by (induction s arbitrary: pw cur) simp_all

text \<open>
  C3. For every text, the sections produced by the split used in
  \<open>map_terms_to_sections\<close>, concatenated in order, are the text itself: nothing is lost
  or duplicated at a boundary.
\<close>

theorem split_sections_reconstruct:
  "concat (split_sections text) = text"
  by (simp add: split_sections_def concat_split_sections_acc)

theorem split_sections_reconstruct_witness:
  "split_sections (''x 1. a'' @ [NL] @ ''b 2. c'') = [''x '', ''1. a'' @ [NL] @ ''b '', ''2. c''] \<and>
   concat (split_sections (''x 1. a'' @ [NL] @ ''b 2. c'')) = ''x 1. a'' @ [NL] @ ''b 2. c''"
proof -
  have "split_sections (''x 1. a'' @ [NL] @ ''b 2. c'') = [''x '', ''1. a'' @ [NL] @ ''b '', ''2. c'']"
    by code_simp
  then show ?thesis
    using split_sections_reconstruct [of "''x 1. a'' @ [NL] @ ''b 2. c''"] by simp
qed

section \<open>Critical terms\<close>

lemma set_ensure_fold:
  "set (foldl (\<lambda>extracted term.
               if contains term low
               then (if term \<notin> set extracted then set_add term extracted else extracted)
               else extracted) acc cts) =
     set acc \<union> {term \<in> set cts. contains term low}"
  by (induction cts arbitrary: acc) (auto simp: set_add_def)

lemma set_ensure_critical_terms:
  "\<forall>xs. set (iteration xs) = set xs \<Longrightarrow>
   set (ensure_critical_terms iteration candidates text) =
     set candidates \<union> {term \<in> set critical_terms. contains term (lower text)}"
  by (simp add: ensure_critical_terms_def Let_def set_ensure_fold)




section \<open>The saved text, line by line\<close>

lemma unlines_append: "unlines (xs @ ys) = unlines xs @ unlines ys"
  by (simp add: unlines_def)

lemma unlines_Cons: "unlines (l # ls) = l @ NL # unlines ls"
  by (simp add: unlines_def)

lemma unlines_Nil: "unlines [] = []"
  by (simp add: unlines_def)

lemma unlines_sections:
  "concat (map (\<lambda>section. ''Section: '' @ section @ [NL] @ [NL] @ ''---'' @ [NL]) secs) =
   unlines (concat (map (\<lambda>section. [''Section: '' @ section, [], ''---'']) secs))"
  by (induction secs) (simp_all add: unlines_append unlines_Cons unlines_Nil)

lemma unlines_blocks:
  "concat (map (\<lambda>(term, sections).
                    [NL] @ ''Term: '' @ term @ [NL] @
                    concat (map (\<lambda>section. ''Section: '' @ section @ [NL] @ [NL] @ ''---'' @ [NL])
                              sections)) m) =
   unlines (concat (map block_lines m))"
proof (induction m)
  case Nil
  then show ?case by (simp add: unlines_Nil)
next
  case (Cons b m)
  obtain t secs where b: "b = (t, secs)" by (cases b)
  show ?case
    unfolding b using Cons.IH unlines_sections [of secs]
    by (simp add: block_lines_def unlines_append unlines_Cons unlines_Nil)
qed

lemma unlines_terms:
  "concat (map (\<lambda>term. ''- '' @ term @ [NL]) ts) = unlines (map (\<lambda>term. ''- '' @ term) ts)"
  by (induction ts) (simp_all add: unlines_Cons unlines_Nil)

lemma save_text_unlines: "save_text ts m = unlines (save_lines ts m)"
proof -
  have e: "(@) [CHR ''-'', SP] = (\<lambda>term. CHR ''-'' # SP # term)"
    by (rule ext) simp
  show ?thesis
    unfolding save_text_def save_lines_def
    using unlines_blocks [of m] unlines_terms [of ts]
    by (simp add: unlines_append unlines_Cons unlines_Nil e)
qed

lemma not_linebreak_CR: "\<not> is_linebreak c \<Longrightarrow> c \<noteq> CR"
  by (auto simp: is_linebreak_def code_def)

lemma is_linebreak_NL: "is_linebreak NL"
  by (simp add: is_linebreak_def code_def)

lemma splitlines_acc_line:
  "\<not> list_ex is_linebreak l \<Longrightarrow>
   splitlines_acc cur (l @ NL # rest) = (cur @ l) # splitlines_acc [] rest"
proof (induction l arbitrary: cur)
  case Nil
  show ?case by (cases rest) (simp_all add: is_linebreak_NL)
next
  case (Cons c l)
  then have c: "\<not> is_linebreak c" "c \<noteq> CR" and l: "\<not> list_ex is_linebreak l"
    by (auto dest: not_linebreak_CR)
  obtain d cs where dcs: "l @ NL # rest = d # cs" by (cases "l @ NL # rest") auto
  have "splitlines_acc cur ((c # l) @ NL # rest) = splitlines_acc (cur @ [c]) (l @ NL # rest)"
    using c by (simp add: dcs)
  then show ?case using Cons.IH [OF l] by simp
qed

lemma splitlines_unlines:
  "\<forall>l\<in>set ls. \<not> list_ex is_linebreak l \<Longrightarrow> splitlines_acc [] (unlines ls) = ls"
  by (induction ls) (simp_all add: unlines_Cons unlines_Nil splitlines_acc_line)

lemma universal_newlines_id: "CR \<notin> set s \<Longrightarrow> universal_newlines s = s"
  by (induction s rule: universal_newlines.induct) auto

lemma CR_notin_unlines:
  "\<forall>l\<in>set ls. \<not> list_ex is_linebreak l \<Longrightarrow> CR \<notin> set (unlines ls)"
  by (induction ls) (auto simp: unlines_Cons unlines_Nil list_ex_iff dest: not_linebreak_CR)

section \<open>Parsing the saved lines\<close>

lemma parse_lines_append:
  "parse_lines st (xs @ ys) =
     (case parse_lines st xs of Inl e \<Rightarrow> Inl e | Inr st' \<Rightarrow> parse_lines st' ys)"
  by (induction xs arbitrary: st) (auto split: sum.splits)

lemma parse_line_ignored:
  "parse_line st ''Extracted Key Terms:'' = Inr st"
  "parse_line st [] = Inr st"
  "parse_line st ''Mapped Sections:'' = Inr st"
  "parse_line st ''---'' = Inr st"
  by (simp_all add: parse_line_def split: prod.splits)

lemma parse_line_bullet:
  "strip t = t \<Longrightarrow>
   parse_line (ts, m, c) (''- '' @ t) = Inr (set_add t ts, AList.update t [] m, Some t)"
  by (simp add: parse_line_def)

lemma py_split_no_sep: "sep \<notin> set s \<Longrightarrow> py_split sep s = [s]"
  by (induction s) auto

lemma is_space_SP: "is_space SP"
  by (simp add: is_space_def code_def)

lemma strip_leading_space: "is_space c \<Longrightarrow> strip (c # t) = strip t"
  by (simp add: strip_def)

lemma parse_line_term:
  assumes "storable_term t"
  shows "parse_line (ts, m, c) (''Term: '' @ t) = Inr (ts, m, Some t)"
proof -
  from assms have nc: "CHR '':'' \<notin> set (SP # t)" and st: "strip t = t"
    by (auto simp: storable_term_def)
  from nc have "py_split (CHR '':'') (SP # t) = [SP # t]" by (rule py_split_no_sep)
  then have "py_split (CHR '':'') (''Term: '' @ t) = [''Term'', SP # t]" by simp
  moreover have "strip (SP # t) = t" using st by (simp add: strip_leading_space is_space_SP)
  ultimately show ?thesis by (simp add: parse_line_def)
qed

lemma parse_line_section:
  assumes "t \<noteq> []" "map_of m t = Some old" "strip s = s"
  shows "parse_line (ts, m, Some t) (''Section: '' @ s) =
     Inr (ts, AList.update t (old @ [s]) m, Some t)"
  using assms by (simp add: parse_line_def)

lemma parse_bullets:
  "\<forall>t\<in>set ts. strip t = t \<Longrightarrow>
   \<exists>c'. parse_lines (acc, m, c) (map (\<lambda>term. ''- '' @ term) ts) =
     Inr (foldl (\<lambda>s t. set_add t s) acc ts, foldl (\<lambda>m t. AList.update t [] m) m ts, c')"
proof (induction ts arbitrary: acc m c)
  case Nil
  then show ?case by simp
next
  case (Cons t ts)
  then have "strip t = t" and rest: "\<forall>t\<in>set ts. strip t = t" by auto
  from Cons.IH [OF rest, of "set_add t acc" "AList.update t [] m" "Some t"]
  show ?case using parse_line_bullet [OF \<open>strip t = t\<close>, of acc m c] by simp
qed

lemma parse_sections:
  assumes "t \<noteq> []"
  shows "map_of m t = Some old \<Longrightarrow> \<forall>s\<in>set secs. strip s = s \<Longrightarrow>
    parse_lines (ts, m, Some t)
      (concat (map (\<lambda>section. [''Section: '' @ section, [], ''---'']) secs)) =
    Inr (ts, AList.update t (old @ secs) m, Some t)"
proof (induction secs arbitrary: m old)
  case Nil
  then show ?case by (simp add: AList.update_triv)
next
  case (Cons s secs)
  then have s: "strip s = s" and rest: "\<forall>s\<in>set secs. strip s = s" by auto
  let ?m1 = "AList.update t (old @ [s]) m"
  have look: "map_of ?m1 t = Some (old @ [s])" by (simp add: AList.update_conv')
  have line: "parse_line (ts, m, Some t) (''Section: '' @ s) = Inr (ts, ?m1, Some t)"
    using assms Cons.prems(1) s by (rule parse_line_section)
  have "parse_lines (ts, m, Some t)
      (concat (map (\<lambda>section. [''Section: '' @ section, [], ''---'']) (s # secs))) =
    parse_lines (ts, ?m1, Some t)
      (concat (map (\<lambda>section. [''Section: '' @ section, [], ''---'']) secs))"
    using line parse_line_ignored(2,4) [of "(ts, ?m1, Some t)"] by simp
  also have "\<dots> = Inr (ts, AList.update t ((old @ [s]) @ secs) ?m1, Some t)"
    using look rest by (rule Cons.IH)
  finally show ?case by simp
qed

lemma parse_block:
  assumes "storable_term t" "map_of m t = Some old" "\<forall>s\<in>set secs. strip s = s"
  shows "parse_lines (ts, m, c) (block_lines (t, secs)) =
    Inr (ts, AList.update t (old @ secs) m, Some t)"
proof -
  from assms(1) have ne: "t \<noteq> []" by (simp add: storable_term_def)
  have "parse_lines (ts, m, c) (block_lines (t, secs)) =
    parse_lines (ts, m, Some t)
      (concat (map (\<lambda>section. [''Section: '' @ section, [], ''---'']) secs))"
    using parse_line_ignored(2) [of "(ts, m, c)"] parse_line_term [OF assms(1), of ts m c]
    by (simp add: block_lines_def)
  then show ?thesis using parse_sections [OF ne assms(2,3), of ts] by simp
qed

lemma parse_blocks:
  "distinct (map fst rcd) \<Longrightarrow>
   \<forall>(t, secs)\<in>set rcd. storable_term t \<and> map_of m t \<noteq> None \<and> (\<forall>s\<in>set secs. strip s = s) \<Longrightarrow>
   \<exists>m' c'. parse_lines (ts, m, c) (concat (map block_lines rcd)) = Inr (ts, m', c') \<and>
     fst ` set m' = fst ` set m \<and>
     (\<forall>k. map_of m' k =
        (case map_of rcd k of
           None \<Rightarrow> map_of m k
         | Some secs \<Rightarrow> map_option (\<lambda>old. old @ secs) (map_of m k)))"
proof (induction rcd arbitrary: m c)
  case Nil
  then show ?case by simp
next
  case (Cons b rcd)
  obtain t secs where b: "b = (t, secs)" by (cases b)
  from Cons.prems b obtain old where
    t: "storable_term t" and old: "map_of m t = Some old" and secs: "\<forall>s\<in>set secs. strip s = s"
    by auto
  from Cons.prems b have notin: "t \<notin> fst ` set rcd" and d: "distinct (map fst rcd)" by auto
  let ?m1 = "AList.update t (old @ secs) m"
  have look1: "map_of ?m1 k = (if k = t then Some (old @ secs) else map_of m k)" for k
    by (simp add: AList.update_conv')
  have keys1: "fst ` set ?m1 = fst ` set m"
    using old by (auto simp: AList.dom_update dest: map_of_SomeD intro: rev_image_eqI)
  have blk: "parse_lines (ts, m, c) (block_lines (t, secs)) = Inr (ts, ?m1, Some t)"
    using t old secs by (rule parse_block)
  have "\<forall>(t, secs)\<in>set rcd. storable_term t \<and> map_of ?m1 t \<noteq> None \<and> (\<forall>s\<in>set secs. strip s = s)"
    using Cons.prems(2) by (auto simp: look1)
  from Cons.IH [OF d this, of "Some t"] obtain m' c' where m':
    "parse_lines (ts, ?m1, Some t) (concat (map block_lines rcd)) = Inr (ts, m', c')"
    "fst ` set m' = fst ` set ?m1"
    "\<And>k. map_of m' k =
        (case map_of rcd k of
           None \<Rightarrow> map_of ?m1 k
         | Some secs \<Rightarrow> map_option (\<lambda>old. old @ secs) (map_of ?m1 k))"
    by blast
  have "parse_lines (ts, m, c) (concat (map block_lines (b # rcd))) = Inr (ts, m', c')"
    using blk m'(1) by (simp add: b parse_lines_append)
  moreover have "fst ` set m' = fst ` set m" using m'(2) keys1 by simp
  moreover have "map_of m' k =
        (case map_of (b # rcd) k of
           None \<Rightarrow> map_of m k
         | Some secs \<Rightarrow> map_option (\<lambda>old. old @ secs) (map_of m k))" for k
  proof (cases "k = t")
    case True
    from notin have "map_of rcd t = None" by (simp add: map_of_eq_None_iff)
    then show ?thesis using True old by (simp add: m'(3) look1 b)
  next
    case False
    then show ?thesis by (simp add: m'(3) look1 b split: option.splits)
  qed
  ultimately show ?case by blast
qed

lemma set_foldl_set_add: "set (foldl (\<lambda>s t. set_add t s) acc ts) = set acc \<union> set ts"
  by (induction ts arbitrary: acc) (auto simp: set_add_def)

lemma plain_literals:
  "\<not> list_ex is_linebreak ''Extracted Key Terms:''"
  "\<not> list_ex is_linebreak ''Mapped Sections:''"
  "\<not> list_ex is_linebreak ''---''"
  "\<not> list_ex is_linebreak ''- ''"
  "\<not> list_ex is_linebreak ''Term: ''"
  "\<not> list_ex is_linebreak ''Section: ''"
  by (simp_all add: is_linebreak_def code_def)

lemma block_lines_plain:
  assumes "storable_term t" "\<forall>s\<in>set secs. storable_section s"
  shows "\<forall>l\<in>set (block_lines (t, secs)). \<not> list_ex is_linebreak l"
  using assms plain_literals
  by (auto simp: block_lines_def storable_term_def storable_section_def)

lemma save_lines_plain:
  assumes "\<forall>t\<in>set ts. storable_term t"
    and "\<forall>(t, secs)\<in>set rcd. storable_term t \<and> (\<forall>s\<in>set secs. storable_section s)"
  shows "\<forall>l\<in>set (save_lines ts rcd). \<not> list_ex is_linebreak l"
proof
  fix l assume "l \<in> set (save_lines ts rcd)"
  then consider "l = ''Extracted Key Terms:''" | "l = []" | "l = ''Mapped Sections:''"
    | t where "t \<in> set ts" "l = ''- '' @ t"
    | t secs where "(t, secs) \<in> set rcd" "l \<in> set (block_lines (t, secs))"
    by (auto simp: save_lines_def)
  then show "\<not> list_ex is_linebreak l"
  proof cases
    case 4
    with assms(1) plain_literals(4) show ?thesis by (auto simp: storable_term_def)
  next
    case 5
    with assms(2) block_lines_plain [of t secs] show ?thesis by auto
  qed (simp_all add: is_linebreak_def code_def)
qed

lemma parse_saved_lines:
  assumes "\<forall>t\<in>set ts. storable_term t"
    and "distinct (map fst rcd)" "fst ` set rcd \<subseteq> set ts"
    and "\<forall>(t, secs)\<in>set rcd. \<forall>s\<in>set secs. storable_section s"
  shows "\<exists>m' c'. parse_lines ([], [], None) (save_lines ts rcd) =
       Inr (foldl (\<lambda>s t. set_add t s) [] ts, m', c') \<and>
     fst ` set m' = set ts \<and>
     (\<forall>t\<in>set ts. map_of m' t = Some (case map_of rcd t of None \<Rightarrow> [] | Some secs \<Rightarrow> secs))"
proof -
  let ?acc = "foldl (\<lambda>s t. set_add t s) [] ts"
  let ?init = "foldl (\<lambda>m t. AList.update t [] m) [] ts :: string list dict"
  have stripped: "\<forall>t\<in>set ts. strip t = t" using assms(1) by (simp add: storable_term_def)
  from parse_bullets [OF stripped, of "[]" "[]" None] obtain c1 where
    bul: "parse_lines ([], [], None) (map (\<lambda>term. ''- '' @ term) ts) = Inr (?acc, ?init, c1)"
    by blast
  have look0: "map_of ?init k = (if k \<in> set ts then Some [] else None)" for k
    by (simp add: map_of_empty_dict)
  have keys0: "fst ` set ?init = set ts" by (simp add: keys_empty_dict)
  have "\<forall>(t, secs)\<in>set rcd. storable_term t \<and> map_of ?init t \<noteq> None \<and> (\<forall>s\<in>set secs. strip s = s)"
  proof (clarify, intro conjI ballI)
    fix t secs assume in_rcd: "(t, secs) \<in> set rcd"
    then have "t \<in> set ts" using assms(3) by force
    then show "storable_term t" "map_of ?init t \<noteq> None"
      using assms(1) by (simp_all add: look0)
    fix s assume "s \<in> set secs"
    with in_rcd assms(4) show "strip s = s" by (auto simp: storable_section_def)
  qed
  from parse_blocks [OF assms(2) this, of ?acc c1] obtain m' c' where m':
    "parse_lines (?acc, ?init, c1) (concat (map block_lines rcd)) = Inr (?acc, m', c')"
    "fst ` set m' = fst ` set ?init"
    "\<And>k. map_of m' k =
        (case map_of rcd k of
           None \<Rightarrow> map_of ?init k
         | Some secs \<Rightarrow> map_option (\<lambda>old. old @ secs) (map_of ?init k))"
    by blast
  have "parse_lines ([], [], None) (save_lines ts rcd) = Inr (?acc, m', c')"
    using bul m'(1) parse_line_ignored(1) [of "([], [], None)"]
      parse_line_ignored(2,3) [of "(?acc, ?init, c1)"]
    by (simp add: save_lines_def parse_lines_append)
  moreover have "fst ` set m' = set ts" using m'(2) keys0 by simp
  moreover have "\<forall>t\<in>set ts. map_of m' t =
      Some (case map_of rcd t of None \<Rightarrow> [] | Some secs \<Rightarrow> secs)"
    by (simp add: m'(3) look0 split: option.splits)
  ultimately show ?thesis by blast
qed

text \<open>
  C1, as amended. Take terms that the format can hold and a record whose keys are among
  the terms and whose section contexts the format can hold. Parsing (update.py) the text
  that \<open>save_term_extraction_results\<close> writes, read back in text mode, does not raise and
  gives the same set of terms (the parser returns \<open>list(terms)\<close> of a Python set, so the
  order of the terms is the interpreter's and is not part of the result) and a record with
  one entry for every term of the list: the term's section list in the saved record, or
  the empty list when the saved record has no entry for the term.
\<close>

theorem parse_save_round_trip:
  assumes "\<forall>xs. set (iteration xs) = set xs"
    and "\<forall>t\<in>set terms. storable_term t"
    and "distinct (map fst record)" "fst ` set record \<subseteq> set terms"
    and "\<forall>(t, sections)\<in>set record. \<forall>s\<in>set sections. storable_section s"
  shows "\<exists>terms' record'.
     parse_term_extraction_results iteration (universal_newlines (save_text terms record)) =
       Inr (terms', record') \<and>
     set terms' = set terms \<and> fst ` set record' = set terms \<and>
     (\<forall>t\<in>set terms. map_of record' t =
        Some (case map_of record t of None \<Rightarrow> [] | Some sections \<Rightarrow> sections))"
proof -
  have "\<forall>(t, secs)\<in>set record. storable_term t \<and> (\<forall>s\<in>set secs. storable_section s)"
    using assms(2,4,5) by force
  with assms(2) have plain: "\<forall>l\<in>set (save_lines terms record). \<not> list_ex is_linebreak l"
    by (rule save_lines_plain)
  then have "CR \<notin> set (save_text terms record)"
    unfolding save_text_unlines by (rule CR_notin_unlines)
  then have read: "universal_newlines (save_text terms record) = save_text terms record"
    by (rule universal_newlines_id)
  have lines: "splitlines (save_text terms record) = save_lines terms record"
    unfolding save_text_unlines splitlines_def using plain by (rule splitlines_unlines)
  from parse_saved_lines [OF assms(2-5)] obtain m' c' where
    "parse_lines ([], [], None) (save_lines terms record) =
       Inr (foldl (\<lambda>s t. set_add t s) [] terms, m', c')"
    "fst ` set m' = set terms"
    "\<forall>t\<in>set terms. map_of m' t =
        Some (case map_of record t of None \<Rightarrow> [] | Some secs \<Rightarrow> secs)"
    by blast
  then show ?thesis
    using assms(1)
    by (simp add: parse_term_extraction_results_def read lines set_foldl_set_add)
qed

theorem parse_save_round_trip_witness:
  "(\<forall>xs :: string list. set (rev xs) = set xs) \<and>
   storable_term ''fee'' \<and> storable_term ''rent'' \<and> storable_section ''1. Fee due'' \<and>
   parse_term_extraction_results rev
     (universal_newlines (save_text [''fee'', ''rent''] [(''fee'', [''1. Fee due''])])) =
     Inr ([''rent'', ''fee''], [(''fee'', [''1. Fee due'']), (''rent'', [])])"
proof -
  have r: "\<forall>xs :: string list. set (rev xs) = set xs" by simp
  have t: "\<forall>t\<in>set [''fee'', ''rent'']. storable_term t" by code_simp
  have d: "distinct (map fst [(''fee'', [''1. Fee due''])])" by simp
  have k: "fst ` set [(''fee'', [''1. Fee due''])] \<subseteq> set [''fee'', ''rent'']" by simp
  have s: "\<forall>(t, sections)\<in>set [(''fee'', [''1. Fee due''])]. \<forall>s\<in>set sections. storable_section s"
    by code_simp
  have v: "parse_term_extraction_results rev
     (universal_newlines (save_text [''fee'', ''rent''] [(''fee'', [''1. Fee due''])])) =
     Inr ([''rent'', ''fee''], [(''fee'', [''1. Fee due'']), (''rent'', [])])"
    by code_simp
  from parse_save_round_trip [OF r t d k s] obtain ts m where
    "parse_term_extraction_results rev
       (universal_newlines (save_text [''fee'', ''rent''] [(''fee'', [''1. Fee due''])])) = Inr (ts, m)"
    by blast
  with r t s v show ?thesis by simp
qed

theorem round_trip_counterexample:
  "filter_relevant_terms
     (ensure_ground_truth_terms (ensure_critical_terms (\<lambda>xs. xs) [''rent''] ''No fee.'')
        [''rent''] ''No fee.'')
     [''rent''] = [''rent''] \<and>
   map_terms_to_sections ''No fee.'' [''rent''] = Inr [] \<and>
   parse_term_extraction_results (\<lambda>xs. xs) (universal_newlines (save_text [''rent''] [])) =
     Inr ([''rent''], [(''rent'', [])]) \<and>
   parse_term_extraction_results (\<lambda>xs. xs) (universal_newlines (save_text [''rent''] [])) \<noteq>
     Inr ([''rent''], [])"
proof -
  have a: "filter_relevant_terms
     (ensure_ground_truth_terms (ensure_critical_terms (\<lambda>xs. xs) [''rent''] ''No fee.'')
        [''rent''] ''No fee.'')
     [''rent''] = [''rent'']"
    by code_simp
  have b: "map_terms_to_sections ''No fee.'' [''rent''] = Inr []" by code_simp
  have c: "parse_term_extraction_results (\<lambda>xs. xs)
      (universal_newlines (save_text [''rent''] [])) = Inr ([''rent''], [(''rent'', [])])"
    by code_simp
  show ?thesis using a b c by simp
qed

section \<open>What the pipeline produces can be stored\<close>

lemma last_dropWhile: "dropWhile P xs \<noteq> [] \<Longrightarrow> last (dropWhile P xs) = last xs"
  by (induction xs) (auto split: if_splits)

lemma strip_ends:
  assumes "strip s \<noteq> []"
  shows "\<not> is_space (hd (strip s)) \<and> \<not> is_space (last (strip s))"
proof -
  let ?d = "dropWhile is_space s"
  let ?e = "dropWhile is_space (rev ?d)"
  from assms have e: "?e \<noteq> []" by (simp add: strip_def)
  have d: "?d \<noteq> []"
  proof
    assume a: "?d = []"
    have "?e = []" unfolding a by simp
    with e show False by blast
  qed
  have "last (strip s) = hd ?e" using e by (simp add: strip_def last_rev)
  then have l: "\<not> is_space (last (strip s))" using hd_dropWhile [OF e] by simp
  have "hd (strip s) = last ?e" using e by (simp add: strip_def hd_rev)
  also have "\<dots> = last (rev ?d)" using e by (rule last_dropWhile)
  also have "\<dots> = hd ?d" using d by (simp add: last_rev)
  finally have "\<not> is_space (hd (strip s))" using hd_dropWhile [OF d] by simp
  with l show ?thesis by simp
qed

lemma strip_id:
  assumes "u \<noteq> []" "\<not> is_space (hd u)" "\<not> is_space (last u)"
  shows "strip u = u"
proof -
  have "dropWhile is_space u = u" using assms(1,2) by (simp add: dropWhile_eq_self_iff)
  moreover have "dropWhile is_space (rev u) = rev u"
    using assms(1,3) by (simp add: dropWhile_eq_self_iff hd_rev)
  ultimately show ?thesis by (simp add: strip_def)
qed

lemma is_space_NL: "is_space NL"
  by (simp add: is_space_def code_def)

lemma set_strip: "set (strip s) \<subseteq> set s"
proof -
  have "set (strip s) \<subseteq> set (dropWhile is_space s)"
    using set_dropWhileD [of _ is_space "rev (dropWhile is_space s)"] by (auto simp: strip_def)
  also have "\<dots> \<subseteq> set s" using set_dropWhileD [of _ is_space s] by auto
  finally show ?thesis .
qed

lemma storable_context:
  assumes "\<forall>c\<in>set s. is_linebreak c \<longrightarrow> c = NL"
  shows "storable_section (replace_newlines (strip s))"
proof -
  let ?u = "strip s"
  have plain: "\<not> list_ex is_linebreak (replace_newlines ?u)"
  proof -
    have "\<not> is_linebreak SP" by (simp add: is_linebreak_def code_def)
    then show ?thesis
      using assms set_strip [of s] by (auto simp: replace_newlines_def list_ex_iff)
  qed
  have "strip (replace_newlines ?u) = replace_newlines ?u"
  proof (cases "?u = []")
    case True
    then have "replace_newlines ?u = []" by (simp add: replace_newlines_def)
    moreover have "strip [] = []" by (simp add: strip_def)
    ultimately show ?thesis by simp
  next
    case False
    from strip_ends [OF False] have "hd ?u \<noteq> NL" "last ?u \<noteq> NL"
      and ends: "\<not> is_space (hd ?u)" "\<not> is_space (last ?u)"
      using is_space_NL by auto
    then have "hd (replace_newlines ?u) = hd ?u" "last (replace_newlines ?u) = last ?u"
      using False by (simp_all add: replace_newlines_def hd_map last_map)
    with ends False show ?thesis by (intro strip_id) (simp_all add: replace_newlines_def)
  qed
  with plain show ?thesis by (simp add: storable_section_def)
qed

lemma set_split_section:
  assumes "s \<in> set (split_sections text)"
  shows "set s \<subseteq> set text"
proof -
  have "set s \<subseteq> set (concat (split_sections text))" using assms by auto
  then show ?thesis by (simp add: split_sections_def concat_split_sections_acc)
qed

lemma produced_record_storable:
  assumes "\<forall>c\<in>set text. is_linebreak c \<longrightarrow> c = NL"
    and "map_terms_to_sections text terms = Inr rcd"
  shows "distinct (map fst rcd) \<and> fst ` set rcd \<subseteq> set terms \<and>
    (\<forall>(t, secs)\<in>set rcd. \<forall>s\<in>set secs. storable_section s)"
proof -
  from map_terms_to_sections_lookup [of "text" terms] assms(2)
  have d: "distinct (map fst rcd)"
    and look: "\<And>t. map_of rcd t =
        (if t \<in> set terms \<and> collected_contexts text t \<noteq> []
         then Some (collected_contexts text t) else None)"
    by auto
  have "t \<in> set terms \<and> (\<forall>s\<in>set secs. storable_section s)" if "(t, secs) \<in> set rcd" for t secs
  proof -
    from that d have "map_of rcd t = Some secs" by simp
    with look [of t] have t: "t \<in> set terms" and secs: "secs = collected_contexts text t"
      by (auto split: if_splits)
    have "storable_section s" if "s \<in> set secs" for s
    proof -
      from that secs obtain sec where "sec \<in> set (split_sections text)"
        and s: "s = replace_newlines (strip sec)"
        by (auto simp: collected_contexts_def)
      then have "set sec \<subseteq> set text" by (simp add: set_split_section)
      with assms(1) have "\<forall>c\<in>set sec. is_linebreak c \<longrightarrow> c = NL" by auto
      then show ?thesis unfolding s by (rule storable_context)
    qed
    with t show ?thesis by simp
  qed
  with d show ?thesis by force
qed

section \<open>Two runs of the pipeline\<close>

lemma set_ensure_ground_truth_terms:
  "set (ensure_ground_truth_terms extracted gt text) =
     set extracted \<union> {term \<in> set gt. contains term (lower text)}"
proof -
  have "set (foldl (\<lambda>extracted term.
               if contains term low
               then (if term \<notin> set extracted then extracted @ [term] else extracted)
               else extracted) acc ts) =
     set acc \<union> {term \<in> set ts. contains term low}" for low acc ts
    by (induction ts arbitrary: acc) auto
  then show ?thesis by (simp add: ensure_ground_truth_terms_def Let_def)
qed

lemma set_filter_relevant_terms:
  "set (filter_relevant_terms ts gt) = set ts \<inter> set gt"
  by (auto simp: filter_relevant_terms_def)

lemma set_relevant_terms:
  "\<forall>xs. set (iteration xs) = set xs \<Longrightarrow>
   set (filter_relevant_terms
          (ensure_ground_truth_terms (ensure_critical_terms iteration candidates text) gt text)
          gt) =
     (set candidates \<union> {term \<in> set critical_terms. contains term (lower text)} \<union>
      {term \<in> set gt. contains term (lower text)}) \<inter> set gt"
  by (simp add: set_filter_relevant_terms set_ensure_ground_truth_terms set_ensure_critical_terms)

lemma process_file_saves:
  assumes "extract_key_terms text = Inr candidates"
    and "map_terms_to_sections text
           (filter_relevant_terms
              (ensure_ground_truth_terms (ensure_critical_terms iteration candidates text)
                 gt text) gt) =
         Inr rcd"
  shows "process_file iteration extract_key_terms gt out (filename, text) =
     Inr (save_term_extraction_results out filename
            (filter_relevant_terms
               (ensure_ground_truth_terms (ensure_critical_terms iteration candidates text)
                  gt text) gt)
            rcd)"
  using assms by (simp add: process_file_def Let_def)

lemma process_file_fails:
  "extract_key_terms text = Inl e \<Longrightarrow>
   process_file iteration extract_key_terms gt out (filename, text) = Inl e"
  by (simp add: process_file_def)

lemma same_terms_and_sections:
  assumes "\<forall>xs. set (iteration1 xs) = set xs" "\<forall>xs. set (iteration2 xs) = set xs"
    and "set gt1 = set gt2"
  shows "\<exists>terms1 record1 terms2 record2.
    terms1 = filter_relevant_terms
      (ensure_ground_truth_terms (ensure_critical_terms iteration1 candidates text) gt1 text) gt1 \<and>
    terms2 = filter_relevant_terms
      (ensure_ground_truth_terms (ensure_critical_terms iteration2 candidates text) gt2 text) gt2 \<and>
    map_terms_to_sections text terms1 = Inr record1 \<and>
    map_terms_to_sections text terms2 = Inr record2 \<and>
    set terms1 = set terms2 \<and> distinct (map fst record1) \<and> distinct (map fst record2) \<and>
    map_of record1 = map_of record2"
proof -
  let ?t1 = "filter_relevant_terms
      (ensure_ground_truth_terms (ensure_critical_terms iteration1 candidates text) gt1 text) gt1"
  let ?t2 = "filter_relevant_terms
      (ensure_ground_truth_terms (ensure_critical_terms iteration2 candidates text) gt2 text) gt2"
  have same: "set ?t1 = set ?t2"
    using assms(3) by (simp add: set_relevant_terms [OF assms(1)] set_relevant_terms [OF assms(2)])
  from map_terms_to_sections_lookup [of "text" ?t1] obtain r1 where r1:
    "map_terms_to_sections text ?t1 = Inr r1" "distinct (map fst r1)"
    "\<And>t. map_of r1 t =
        (if t \<in> set ?t1 \<and> collected_contexts text t \<noteq> []
         then Some (collected_contexts text t) else None)"
    by blast
  from map_terms_to_sections_lookup [of "text" ?t2] obtain r2 where r2:
    "map_terms_to_sections text ?t2 = Inr r2" "distinct (map fst r2)"
    "\<And>t. map_of r2 t =
        (if t \<in> set ?t2 \<and> collected_contexts text t \<noteq> []
         then Some (collected_contexts text t) else None)"
    by blast
  have "map_of r1 = map_of r2"
  proof
    fix t show "map_of r1 t = map_of r2 t" unfolding r1(3) r2(3) same ..
  qed
  with same r1(1,2) r2(1,2) show ?thesis by blast
qed

lemma process_documents_related:
  fixes related :: "directory \<Rightarrow> directory \<Rightarrow> bool"
  defines "related \<equiv> \<lambda>a b. map fst a = map fst b \<and>
     (\<forall>name. map_of a name = map_of b name \<or>
        (\<exists>terms1 record1 terms2 record2.
           map_of a name = Some (save_text terms1 record1) \<and>
           map_of b name = Some (save_text terms2 record2) \<and>
           set terms1 = set terms2 \<and>
           distinct (map fst record1) \<and> distinct (map fst record2) \<and>
           map_of record1 = map_of record2))"
  assumes "\<forall>xs. set (iteration1 xs) = set xs" "\<forall>xs. set (iteration2 xs) = set xs"
    and "set gt1 = set gt2"
  shows "related out1 out2 \<Longrightarrow>
    \<exists>o1 o2 err.
      process_documents iteration1 extract_key_terms gt1 out1 docs = (o1, err) \<and>
      process_documents iteration2 extract_key_terms gt2 out2 docs = (o2, err) \<and>
      related o1 o2"
proof (induction docs arbitrary: out1 out2)
  case Nil
  then show ?case by simp
next
  case (Cons doc docs)
  obtain filename doc_text where doc: "doc = (filename, doc_text)" by (cases doc)
  show ?case
  proof (cases "extract_key_terms doc_text")
    case (Inl e)
    then show ?thesis using Cons.prems by (simp add: doc process_file_fails)
  next
    case (Inr candidates)
    from same_terms_and_sections [OF assms(2-4), of candidates doc_text]
    obtain t1 r1 t2 r2 where
      t1: "t1 = filter_relevant_terms
        (ensure_ground_truth_terms (ensure_critical_terms iteration1 candidates doc_text) gt1 doc_text) gt1"
      and t2: "t2 = filter_relevant_terms
        (ensure_ground_truth_terms (ensure_critical_terms iteration2 candidates doc_text) gt2 doc_text) gt2"
      and m1: "map_terms_to_sections doc_text t1 = Inr r1"
      and m2: "map_terms_to_sections doc_text t2 = Inr r2"
      and rel: "set t1 = set t2" "distinct (map fst r1)" "distinct (map fst r2)"
        "map_of r1 = map_of r2"
      by blast
    let ?o1 = "save_term_extraction_results out1 filename t1 r1"
    let ?o2 = "save_term_extraction_results out2 filename t2 r2"
    have p1: "process_file iteration1 extract_key_terms gt1 out1 (filename, doc_text) = Inr ?o1"
      unfolding t1 using Inr m1 [unfolded t1] by (rule process_file_saves)
    have p2: "process_file iteration2 extract_key_terms gt2 out2 (filename, doc_text) = Inr ?o2"
      unfolding t2 using Inr m2 [unfolded t2] by (rule process_file_saves)
    have "related ?o1 ?o2"
    proof -
      from Cons.prems have keys: "map fst out1 = map fst out2"
        and files: "\<And>name. map_of out1 name = map_of out2 name \<or>
          (\<exists>terms1 record1 terms2 record2.
             map_of out1 name = Some (save_text terms1 record1) \<and>
             map_of out2 name = Some (save_text terms2 record2) \<and>
             set terms1 = set terms2 \<and>
             distinct (map fst record1) \<and> distinct (map fst record2) \<and>
             map_of record1 = map_of record2)"
        by (auto simp: related_def)
      have "map fst ?o1 = map fst ?o2"
        by (simp add: save_term_extraction_results_def AList.update_keys keys)
      moreover have "map_of ?o1 name = map_of ?o2 name \<or>
          (\<exists>terms1 record1 terms2 record2.
             map_of ?o1 name = Some (save_text terms1 record1) \<and>
             map_of ?o2 name = Some (save_text terms2 record2) \<and>
             set terms1 = set terms2 \<and>
             distinct (map fst record1) \<and> distinct (map fst record2) \<and>
             map_of record1 = map_of record2)" for name
      proof (cases "name = py_replace ''_text.txt'' ''_terms.txt'' filename")
        case True
        then have "map_of ?o1 name = Some (save_text t1 r1)" "map_of ?o2 name = Some (save_text t2 r2)"
          by (simp_all add: save_term_extraction_results_def AList.update_conv')
        with rel show ?thesis by blast
      next
        case False
        then have "map_of ?o1 name = map_of out1 name" "map_of ?o2 name = map_of out2 name"
          by (simp_all add: save_term_extraction_results_def AList.update_conv')
        with files [of name] show ?thesis by simp
      qed
      ultimately show ?thesis by (simp add: related_def)
    qed
    from Cons.IH [OF this] obtain o1 o2 err where
      "process_documents iteration1 extract_key_terms gt1 ?o1 docs = (o1, err)"
      "process_documents iteration2 extract_key_terms gt2 ?o2 docs = (o2, err)"
      "related o1 o2"
      by blast
    then show ?thesis using p1 p2 by (simp add: doc)
  qed
qed

text \<open>
  C6, as amended. Two runs of \<open>process_files\<close> on the same text directory, the same
  output directory, the same candidate function and ground-truth sets that are equal as
  sets, each under any iteration order of its Python sets, end the same way (both
  complete, or both stop with the same exception) and leave output directories with the
  same file names in the same places. Under every name the two files are equal, or they
  are saved from term lists with the same set of terms and from records that give every
  term the same section list. The order in which a file lists its terms and blocks is the
  interpreter's and is not part of the statement.
\<close>

theorem process_files_order_independent:
  assumes "\<forall>xs. set (iteration1 xs) = set xs" "\<forall>xs. set (iteration2 xs) = set xs"
    and "set gt1 = set gt2"
  shows "\<exists>out1 out2 err.
     process_files iteration1 extract_key_terms text_directory out gt1 = (out1, err) \<and>
     process_files iteration2 extract_key_terms text_directory out gt2 = (out2, err) \<and>
     map fst out1 = map fst out2 \<and>
     (\<forall>name. map_of out1 name = map_of out2 name \<or>
        (\<exists>terms1 record1 terms2 record2.
           map_of out1 name = Some (save_text terms1 record1) \<and>
           map_of out2 name = Some (save_text terms2 record2) \<and>
           set terms1 = set terms2 \<and>
           distinct (map fst record1) \<and> distinct (map fst record2) \<and>
           map_of record1 = map_of record2))"
  using process_documents_related [OF assms, of out out extract_key_terms
      "load_text_files text_directory"]
  by (simp add: process_files_def)

theorem process_files_order_independent_witness:
  "(\<forall>xs :: string list. set ((\<lambda>xs. xs) xs) = set xs) \<and>
   (\<forall>xs :: string list. set (rev xs) = set xs) \<and>
   set [''rent'', ''fee''] = set [''fee'', ''rent''] \<and>
   process_files (\<lambda>xs. xs) (\<lambda>text. Inr [''rent'', ''fee''])
     [(''a_text.txt'', ''rent fee'')] [] [''rent'', ''fee''] =
     ([(''a_terms.txt'',
        save_text [''rent'', ''fee''] [(''rent'', [''rent fee'']), (''fee'', [''rent fee''])])],
      None) \<and>
   process_files rev (\<lambda>text. Inr [''rent'', ''fee''])
     [(''a_text.txt'', ''rent fee'')] [] [''fee'', ''rent''] =
     ([(''a_terms.txt'',
        save_text [''fee'', ''rent''] [(''fee'', [''rent fee'']), (''rent'', [''rent fee''])])],
      None) \<and>
   map_of [(''rent'', [''rent fee'']), (''fee'', [''rent fee''])] =
     map_of [(''fee'', [''rent fee'']), (''rent'', [''rent fee''])]"
proof -
  have i: "\<forall>xs :: string list. set ((\<lambda>xs. xs) xs) = set xs" by simp
  have r: "\<forall>xs :: string list. set (rev xs) = set xs" by simp
  have g: "set [''rent'', ''fee''] = set [''fee'', ''rent'']" by auto
  have a: "process_files (\<lambda>xs. xs) (\<lambda>text. Inr [''rent'', ''fee''])
     [(''a_text.txt'', ''rent fee'')] [] [''rent'', ''fee''] =
     ([(''a_terms.txt'',
        save_text [''rent'', ''fee''] [(''rent'', [''rent fee'']), (''fee'', [''rent fee''])])],
      None)"
    by code_simp
  have b: "process_files rev (\<lambda>text. Inr [''rent'', ''fee''])
     [(''a_text.txt'', ''rent fee'')] [] [''fee'', ''rent''] =
     ([(''a_terms.txt'',
        save_text [''fee'', ''rent''] [(''fee'', [''rent fee'']), (''rent'', [''rent fee''])])],
      None)"
    by code_simp
  have m: "map_of [(''rent'', [''rent fee'']), (''fee'', [''rent fee''])] =
     map_of [(''fee'', [''rent fee'']), (''rent'', [''rent fee''])]"
    by (rule ext) simp
  from process_files_order_independent [OF i r g,
      of "\<lambda>text. Inr [''rent'', ''fee'']" "[(''a_text.txt'', ''rent fee'')]" "[]"]
  obtain out1 out2 err where
    "process_files (\<lambda>xs. xs) (\<lambda>text. Inr [''rent'', ''fee''])
       [(''a_text.txt'', ''rent fee'')] [] [''rent'', ''fee''] = (out1, err)"
    "process_files rev (\<lambda>text. Inr [''rent'', ''fee''])
       [(''a_text.txt'', ''rent fee'')] [] [''fee'', ''rent''] = (out2, err)"
    "map fst out1 = map fst out2"
    by blast
  with i r g a b m show ?thesis by simp
qed

theorem process_files_order_counterexample:
  "(\<forall>xs :: string list. set (rev xs) = set xs) \<and>
   process_files (\<lambda>xs. xs) (\<lambda>text. Inr [''rent'', ''fee''])
     [(''a_text.txt'', ''rent fee'')] [] [''rent'', ''fee''] =
     ([(''a_terms.txt'',
        save_text [''rent'', ''fee''] [(''rent'', [''rent fee'']), (''fee'', [''rent fee''])])],
      None) \<and>
   process_files rev (\<lambda>text. Inr [''rent'', ''fee''])
     [(''a_text.txt'', ''rent fee'')] [] [''rent'', ''fee''] =
     ([(''a_terms.txt'',
        save_text [''fee'', ''rent''] [(''fee'', [''rent fee'']), (''rent'', [''rent fee''])])],
      None) \<and>
   process_files (\<lambda>xs. xs) (\<lambda>text. Inr [''rent'', ''fee''])
     [(''a_text.txt'', ''rent fee'')] [] [''rent'', ''fee''] \<noteq>
   process_files rev (\<lambda>text. Inr [''rent'', ''fee''])
     [(''a_text.txt'', ''rent fee'')] [] [''rent'', ''fee'']"
proof -
  have r: "\<forall>xs :: string list. set (rev xs) = set xs" by simp
  have a: "process_files (\<lambda>xs. xs) (\<lambda>text. Inr [''rent'', ''fee''])
     [(''a_text.txt'', ''rent fee'')] [] [''rent'', ''fee''] =
     ([(''a_terms.txt'',
        save_text [''rent'', ''fee''] [(''rent'', [''rent fee'']), (''fee'', [''rent fee''])])],
      None)"
    by code_simp
  have b: "process_files rev (\<lambda>text. Inr [''rent'', ''fee''])
     [(''a_text.txt'', ''rent fee'')] [] [''rent'', ''fee''] =
     ([(''a_terms.txt'',
        save_text [''fee'', ''rent''] [(''fee'', [''rent fee'']), (''rent'', [''rent fee''])])],
      None)"
    by code_simp
  have c: "save_text [''rent'', ''fee''] [(''rent'', [''rent fee'']), (''fee'', [''rent fee''])] \<noteq>
     save_text [''fee'', ''rent''] [(''fee'', [''rent fee'']), (''rent'', [''rent fee''])]"
    by code_simp
  show ?thesis using r a b c by simp
qed

section \<open>Failures\<close>

lemma py_split_nonempty: "py_split sep s \<noteq> []"
  by (induction s) (auto split: list.splits)

lemma py_split_has_second: "\<exists>a p ps. py_split sep (xs @ sep # ys) = a # p # ps"
proof (induction xs)
  case Nil
  obtain p ps where "py_split sep ys = p # ps"
    using py_split_nonempty [of sep ys] by (cases "py_split sep ys") auto
  then show ?case by simp
next
  case (Cons x xs)
  then obtain a p ps where IH: "py_split sep (xs @ sep # ys) = a # p # ps" by blast
  show ?case by (cases "x = sep") (simp_all add: IH)
qed

lemma parse_line_unrecognized:
  "\<not> prefix ''- '' line \<Longrightarrow> \<not> prefix ''Term:'' line \<Longrightarrow> \<not> prefix ''Section:'' line \<Longrightarrow>
   parse_line st line = Inr st"
  by (simp add: parse_line_def split: prod.splits)

lemma parse_line_error:
  assumes "parse_line (ts, m, c) line = Inl e"
  shows "\<exists>t. e = KeyError t \<and> prefix ''Section:'' line \<and> c = Some t \<and> t \<noteq> [] \<and> map_of m t = None"
proof (cases "prefix ''- '' line")
  case True
  with assms show ?thesis by (simp add: parse_line_def Let_def)
next
  case bullet: False
  show ?thesis
  proof (cases "prefix ''Term:'' line")
    case True
    then obtain rest where "line = ''Term'' @ CHR '':'' # rest" by (auto simp: prefix_def)
    with py_split_has_second [of "CHR '':''" "''Term''" rest]
    obtain a p ps where "py_split (CHR '':'') line = a # p # ps" by auto
    with assms bullet True show ?thesis by (simp add: parse_line_def)
  next
    case False
    with assms bullet show ?thesis
      by (auto simp: parse_line_def split: if_splits option.splits)
  qed
qed

text \<open>
  C5. The claim is that the parser never raises. A "Term:" line naming a term that no
  bullet line listed, followed by a "Section:" line, makes both parsers (update.py and
  evaluate.py) raise \<open>KeyError\<close>: \<open>if current_term\<close> guards against a missing current
  term, not against a current term without an entry in \<open>term_section_map\<close>.
\<close>

theorem parse_raises_on_unlisted_term:
  "parse_term_extraction_results iteration (''Term: x'' @ [NL] @ ''Section: y'') =
     Inl (KeyError ''x'') \<and>
   evaluate_parse_term_extraction_results (''Term: x'' @ [NL] @ ''Section: y'') =
     Inl (KeyError ''x'')"
proof -
  have "parse_lines ([], [], None) (splitlines (''Term: x'' @ [NL] @ ''Section: y'')) =
      Inl (KeyError ''x'')"
    by code_simp
  moreover have "evaluate_parse_term_extraction_results (''Term: x'' @ [NL] @ ''Section: y'') =
      Inl (KeyError ''x'')"
    by code_simp
  ultimately show ?thesis by (simp add: parse_term_extraction_results_def)
qed

text \<open>
  C7. The claim is that a document whose candidate generation fails does not stop the
  batch. With two documents, the generator failing on the first, \<open>process_files\<close> ends
  with the exception and persists nothing for the second document, which it persists when
  run on that document alone.
\<close>

theorem process_files_stops_at_failure:
  "process_files (\<lambda>xs. xs)
     (\<lambda>text. if text = ''bad'' then Inl (ExternalError ''ner'') else Inr [])
     [(''a_text.txt'', ''bad''), (''b_text.txt'', ''1. rent due'')] [] [''rent''] =
     ([], Some (ExternalError ''ner'')) \<and>
   process_files (\<lambda>xs. xs)
     (\<lambda>text. if text = ''bad'' then Inl (ExternalError ''ner'') else Inr [])
     [(''b_text.txt'', ''1. rent due'')] [] [''rent''] =
     ([(''b_terms.txt'', save_text [''rent''] [(''rent'', [''1. rent due''])])], None)"
  by code_simp

section \<open>One poll of the monitor\<close>

lemma poll_file_unchanged:
  assumes "map_of dir path = Some content" "md5 content = old"
  shows "poll_file md5 iteration dir (h, r, log) (path, old) = ((h, r, log @ [NoChange path]), None)"
  using assms by (simp add: poll_file_def compute_file_hash_def)

lemma poll_file_changed:
  assumes "map_of dir path = Some content" "md5 content \<noteq> old"
    and "load_term_extraction_results iteration dir = Inr r'" "map_of r' path = Some (ts, m)"
  shows "poll_file md5 iteration dir (h, r, log) (path, old) =
    ((AList.update path (md5 content) h, r', log @ [Detected path, Displayed ts m]), None)"
  using assms by (simp add: poll_file_def compute_file_hash_def Let_def)

lemma load_results_other:
  "path \<notin> fst ` set dir \<Longrightarrow> load_results iteration acc dir = Inr r' \<Longrightarrow> map_of r' path = map_of acc path"
proof (induction dir arbitrary: acc)
  case Nil
  then show ?case by simp
next
  case (Cons f dir)
  obtain name content where f: "f = (name, content)" by (cases f)
  with Cons.prems have ne: "name \<noteq> path" and rest: "path \<notin> fst ` set dir" by auto
  show ?case
  proof (cases "endswith name ''_terms.txt''")
    case True
    with Cons.prems(2) f obtain p where
      "parse_term_extraction_results iteration (universal_newlines content) = Inr p"
      "load_results iteration (AList.update name p acc) dir = Inr r'"
      by (auto split: sum.splits)
    with Cons.IH [OF rest] ne show ?thesis by (simp add: AList.update_conv')
  next
    case False
    with Cons.prems(2) f Cons.IH [OF rest] show ?thesis by simp
  qed
qed

lemma load_results_entry:
  "distinct (map fst dir) \<Longrightarrow> (path, content) \<in> set dir \<Longrightarrow> endswith path ''_terms.txt'' \<Longrightarrow>
   load_results iteration acc dir = Inr r' \<Longrightarrow>
   \<exists>p. parse_term_extraction_results iteration (universal_newlines content) = Inr p \<and>
       map_of r' path = Some p"
proof (induction dir arbitrary: acc)
  case Nil
  then show ?case by simp
next
  case (Cons f dir)
  obtain name c where f: "f = (name, c)" by (cases f)
  from Cons.prems(1) f have notin: "name \<notin> fst ` set dir" and d: "distinct (map fst dir)"
    by auto
  show ?case
  proof (cases "(path, content) = f")
    case True
    then have eq: "name = path" "c = content" using f by auto
    from Cons.prems(3,4) f eq obtain p where
      p: "parse_term_extraction_results iteration (universal_newlines content) = Inr p"
      and l: "load_results iteration (AList.update path p acc) dir = Inr r'"
      by (auto split: sum.splits)
    from notin eq have "path \<notin> fst ` set dir" by simp
    from load_results_other [OF this l] have "map_of r' path = Some p"
      by (simp add: AList.update_conv')
    with p show ?thesis by blast
  next
    case False
    with Cons.prems(2) have mem: "(path, content) \<in> set dir" by auto
    show ?thesis
    proof (cases "endswith name ''_terms.txt''")
      case True
      with Cons.prems(4) f obtain q where
        "load_results iteration (AList.update name q acc) dir = Inr r'"
        by (auto split: sum.splits)
      from Cons.IH [OF d mem Cons.prems(3) this] show ?thesis .
    next
      case False
      with Cons.prems(4) f have "load_results iteration acc dir = Inr r'" by simp
      from Cons.IH [OF d mem Cons.prems(3) this] show ?thesis .
    qed
  qed
qed

lemma poll_files_unchanged:
  "\<forall>(p, v)\<in>set es. compute_file_hash md5 dir p = Inr v \<Longrightarrow>
   poll_files md5 iteration dir (h, r, log) es = ((h, r, log @ map (\<lambda>e. NoChange (fst e)) es), None)"
  by (induction es arbitrary: log) (auto simp: poll_file_def)

lemma poll_file_hashes:
  assumes "poll_file md5 iteration dir (h, r, log) (p, old) = ((h', r', log'), None)"
    and "map_of h p = Some old"
  shows "\<exists>content. map_of dir p = Some content \<and> map fst h' = map fst h \<and>
    map_of h' = (map_of h)(p \<mapsto> md5 content)"
proof -
  from assms(1) obtain content where c: "map_of dir p = Some content"
    by (cases "map_of dir p") (auto simp: poll_file_def compute_file_hash_def)
  show ?thesis
  proof (cases "md5 content = old")
    case True
    with assms c have "h' = h" by (simp add: poll_file_unchanged)
    moreover have "map_of h = (map_of h)(p \<mapsto> md5 content)"
      using assms(2) True by (auto simp: fun_eq_iff)
    ultimately show ?thesis using c by simp
  next
    case False
    with assms(1) c have "h' = AList.update p (md5 content) h"
      by (auto simp: poll_file_def compute_file_hash_def Let_def split: sum.splits option.splits)
    then show ?thesis using c map_fst_update_present [OF assms(2)]
      by (simp add: AList.update_conv')
  qed
qed

lemma poll_files_hashes:
  "distinct (map fst es) \<Longrightarrow> \<forall>(p, v)\<in>set es. map_of h p = Some v \<Longrightarrow>
   poll_files md5 iteration dir (h, r, log) es = ((h', r', log'), None) \<Longrightarrow>
   map fst h' = map fst h \<and>
   (\<forall>p. map_of h' p =
      (if p \<in> fst ` set es then map_option md5 (map_of dir p) else map_of h p)) \<and>
   (\<forall>p\<in>fst ` set es. map_of dir p \<noteq> None)"
proof (induction es arbitrary: h r log)
  case Nil
  then show ?case by simp
next
  case (Cons e es)
  obtain p old where e: "e = (p, old)" by (cases e)
  obtain h1 r1 log1 err where step: "poll_file md5 iteration dir (h, r, log) (p, old) = ((h1, r1, log1), err)"
    by (metis prod_cases3 surj_pair)
  with Cons.prems(3) e have err: "err = None"
    and rest: "poll_files md5 iteration dir (h1, r1, log1) es = ((h', r', log'), None)"
    by (auto split: option.splits)
  from Cons.prems(2) e have old: "map_of h p = Some old" by simp
  from poll_file_hashes [OF step [unfolded err] old] obtain content where
    c: "map_of dir p = Some content" and k1: "map fst h1 = map fst h"
    and l1: "map_of h1 = (map_of h)(p \<mapsto> md5 content)"
    by blast
  from Cons.prems(1) e have notin: "p \<notin> fst ` set es" and d: "distinct (map fst es)" by auto
  have "\<forall>(q, v)\<in>set es. map_of h1 q = Some v"
    using Cons.prems(2) notin by (auto simp: l1 rev_image_eqI)
  from Cons.IH [OF d this rest] have
    k: "map fst h' = map fst h1" and
    l: "\<And>q. map_of h' q =
      (if q \<in> fst ` set es then map_option md5 (map_of dir q) else map_of h1 q)" and
    ex: "\<forall>q\<in>fst ` set es. map_of dir q \<noteq> None"
    by auto
  have "map fst h' = map fst h" using k k1 by simp
  moreover have "map_of h' q =
      (if q \<in> fst ` set (e # es) then map_option md5 (map_of dir q) else map_of h q)" for q
    using c by (simp add: l l1 e)
  moreover have "\<forall>q\<in>fst ` set (e # es). map_of dir q \<noteq> None"
    using ex c e by simp
  ultimately show ?case by blast
qed

lemma poll_tick_stable:
  assumes "distinct (map fst h)"
    and "poll_tick md5 iteration dir (h, r, log) = ((h', r', log'), None)"
  shows "poll_tick md5 iteration dir (h', r', log') =
    ((h', r', log' @ map (\<lambda>e. NoChange (fst e)) h'), None)"
proof -
  have self: "\<forall>(p, v)\<in>set h. map_of h p = Some v" using assms(1) by auto
  from assms(2) have "poll_files md5 iteration dir (h, r, log) h = ((h', r', log'), None)"
    by (simp add: poll_tick_def)
  from poll_files_hashes [OF assms(1) self this] have
    k: "map fst h' = map fst h" and
    l: "\<And>p. map_of h' p =
      (if p \<in> fst ` set h then map_option md5 (map_of dir p) else map_of h p)" and
    ex: "\<forall>p\<in>fst ` set h. map_of dir p \<noteq> None"
    by auto
  have d': "distinct (map fst h')" using k assms(1) by simp
  have "\<forall>(p, v)\<in>set h'. compute_file_hash md5 dir p = Inr v"
  proof (clarify)
    fix p v assume pv: "(p, v) \<in> set h'"
    with d' have "map_of h' p = Some v" by simp
    moreover from pv have "p \<in> fst ` set h'" by force
    then have "p \<in> fst ` set h" using k by (metis set_map)
    ultimately show "compute_file_hash md5 dir p = Inr v"
      using ex by (auto simp: l compute_file_hash_def)
  qed
  from poll_files_unchanged [OF this] show ?thesis by (simp add: poll_tick_def)
qed

text \<open>
  C8. The claim is that a poll of a file whose hash changed updates the hash, reloads the
  results and emits the notification. When the changed file is one the parser raises on,
  the poll updates the stored hash, then raises from the reload: the results are the old
  ones and no notification is emitted. (For directories that parse, the poll behaves as
  claimed: \<open>poll_file_changed\<close>, \<open>poll_file_unchanged\<close>, \<open>load_results_entry\<close>,
  \<open>poll_tick_stable\<close>.)
\<close>

theorem poll_tick_raises_on_changed_file:
  assumes "md5 (''- x'' @ [NL]) \<noteq> md5 (''Term: y'' @ [NL] @ ''Section: z'' @ [NL])"
  shows "init_updater md5 iteration [(''a_terms.txt'', ''- x'' @ [NL])] =
     Inr ([(''a_terms.txt'', md5 (''- x'' @ [NL]))],
          [(''a_terms.txt'', (iteration [''x''], [(''x'', [])]))], []) \<and>
   poll_tick md5 iteration [(''a_terms.txt'', ''Term: y'' @ [NL] @ ''Section: z'' @ [NL])]
     ([(''a_terms.txt'', md5 (''- x'' @ [NL]))],
      [(''a_terms.txt'', (iteration [''x''], [(''x'', [])]))], []) =
     (([(''a_terms.txt'', md5 (''Term: y'' @ [NL] @ ''Section: z'' @ [NL]))],
       [(''a_terms.txt'', (iteration [''x''], [(''x'', [])]))], [Detected ''a_terms.txt'']),
      Some (KeyError ''y''))"
proof -
  have e: "endswith ''a_terms.txt'' ''_terms.txt''" by code_simp
  have "parse_lines ([], [], None) (splitlines (universal_newlines (''- x'' @ [NL]))) =
      Inr ([''x''], [(''x'', [])], Some ''x'')"
    by code_simp
  then have p0: "parse_term_extraction_results iteration (universal_newlines (''- x'' @ [NL])) =
      Inr (iteration [''x''], [(''x'', [])])"
    by (simp add: parse_term_extraction_results_def)
  have "parse_lines ([], [], None)
      (splitlines (universal_newlines (''Term: y'' @ [NL] @ ''Section: z'' @ [NL]))) =
      Inl (KeyError ''y'')"
    by code_simp
  then have p1: "parse_term_extraction_results iteration
      (universal_newlines (''Term: y'' @ [NL] @ ''Section: z'' @ [NL])) = Inl (KeyError ''y'')"
    by (simp add: parse_term_extraction_results_def)
  have i: "init_updater md5 iteration [(''a_terms.txt'', ''- x'' @ [NL])] =
     Inr ([(''a_terms.txt'', md5 (''- x'' @ [NL]))],
          [(''a_terms.txt'', (iteration [''x''], [(''x'', [])]))], [])"
    using e p0
    by (simp add: init_updater_def load_term_extraction_results_def compute_initial_hashes_def)
  have t: "poll_tick md5 iteration [(''a_terms.txt'', ''Term: y'' @ [NL] @ ''Section: z'' @ [NL])]
     ([(''a_terms.txt'', md5 (''- x'' @ [NL]))],
      [(''a_terms.txt'', (iteration [''x''], [(''x'', [])]))], []) =
     (([(''a_terms.txt'', md5 (''Term: y'' @ [NL] @ ''Section: z'' @ [NL]))],
       [(''a_terms.txt'', (iteration [''x''], [(''x'', [])]))], [Detected ''a_terms.txt'']),
      Some (KeyError ''y''))"
    using e p1 assms
    by (simp add: poll_tick_def poll_file_def compute_file_hash_def
        load_term_extraction_results_def Let_def)
  from i t show ?thesis by simp
qed

theorem poll_tick_raises_on_changed_file_witness:
  "(\<lambda>s. s) (''- x'' @ [NL]) \<noteq> (\<lambda>s :: string. s) (''Term: y'' @ [NL] @ ''Section: z'' @ [NL]) \<and>
   poll_tick (\<lambda>s. s) (\<lambda>xs. xs)
     [(''a_terms.txt'', ''Term: y'' @ [NL] @ ''Section: z'' @ [NL])]
     ([(''a_terms.txt'', ''- x'' @ [NL])],
      [(''a_terms.txt'', ([''x''], [(''x'', [])]))], []) =
     (([(''a_terms.txt'', ''Term: y'' @ [NL] @ ''Section: z'' @ [NL])],
       [(''a_terms.txt'', ([''x''], [(''x'', [])]))], [Detected ''a_terms.txt'']),
      Some (KeyError ''y''))"
proof -
  have d: "(\<lambda>s. s) (''- x'' @ [NL]) \<noteq> (\<lambda>s :: string. s) (''Term: y'' @ [NL] @ ''Section: z'' @ [NL])"
    by simp
  from poll_tick_raises_on_changed_file [of "\<lambda>s. s" "\<lambda>xs. xs", OF d] d show ?thesis by simp
qed

end
